theory Spec2Isabelle
  imports Main "HOL-Library.AList" "HOL-Library.Char_ord" "HOL-Library.List_Lexorder" "HOL-Library.Product_Lexorder"
begin

section \<open>Cardinal signposts: generator and validator\<close>

text \<open>
  The development embeds \<^verbatim>\<open>cardinal_signposts/generator.py\<close> and
  \<^verbatim>\<open>cardinal_signposts/validators.py\<close>.

  Text. A Python \<^verbatim>\<open>str\<close> is a HOL \<^typ>\<open>string\<close>. The embedding is exact on ASCII text:
  \<^verbatim>\<open>isspace\<close>, \<^verbatim>\<open>upper\<close> and \<^verbatim>\<open>lower\<close> below are Python's on code points below 128 and
  leave every other character alone. The three literals of the source outside ASCII (the
  banner rule and the tree glyphs) are written as their UTF-8 bytes.

  Paths. A resolved absolute \<^verbatim>\<open>Path\<close> is the list of its components, the root of the
  filesystem being \<open>[]\<close>. Symbolic links are not modelled, so \<^verbatim>\<open>resolve()\<close> is the identity.

  Filesystem. Every operation of the program reads and writes below \<^verbatim>\<open>root_path\<close> only, so
  the state is the tree found at \<^verbatim>\<open>root_path\<close>; a directory lists its entries in the
  order in which the filesystem enumerates them. Inside that tree a path is addressed by
  its components below \<^verbatim>\<open>root_path\<close>, which is what \<^verbatim>\<open>relative_to(root_path)\<close> returns.
  Permissions are not modelled: the only failures are those of the shape of the tree.
\<close>

subsection \<open>Python string operations\<close>

definition startswith :: "string \<Rightarrow> string \<Rightarrow> bool" where
  "startswith s p \<longleftrightarrow> take (length p) s = p"

definition endswith :: "string \<Rightarrow> string \<Rightarrow> bool" where
  "endswith s p \<longleftrightarrow> length p \<le> length s \<and> drop (length s - length p) s = p"

text \<open>\<^verbatim>\<open>sub in s\<close>\<close>

fun str_in :: "string \<Rightarrow> string \<Rightarrow> bool" where
  "str_in sub [] = (sub = [])"
| "str_in sub (c # cs) = (startswith (c # cs) sub \<or> str_in sub cs)"

text \<open>
  \<^verbatim>\<open>s.split(sep)\<close> for a separator that is not empty (both call sites pass a literal):
  the pieces between the occurrences of \<open>sep\<close>, found from the left without overlap.
  \<open>acc\<close> holds the current piece, reversed.
\<close>

fun split_acc :: "string \<Rightarrow> string \<Rightarrow> string \<Rightarrow> string list" where
  "split_acc sep acc [] = [rev acc]"
| "split_acc sep acc (c # cs) =
     (if startswith (c # cs) sep then rev acc # split_acc sep [] (drop (length sep - 1) cs)
      else split_acc sep (c # acc) cs)"

definition str_split :: "string \<Rightarrow> string \<Rightarrow> string list" where
  "str_split s sep = split_acc sep [] s"

text \<open>\<^verbatim>\<open>sep.join(xs)\<close>\<close>

fun join :: "string \<Rightarrow> string list \<Rightarrow> string" where
  "join sep [] = []"
| "join sep [x] = x"
| "join sep (x # y # ys) = x @ sep @ join sep (y # ys)"

text \<open>\<^verbatim>\<open>str.isspace\<close> on ASCII: tab, LF, VT, FF, CR, the separators 28 to 31, and the space.\<close>

definition isspace :: "char \<Rightarrow> bool" where
  "isspace c \<longleftrightarrow>
     c \<in> set [CHR 0x09, CHR 0x0A, CHR 0x0B, CHR 0x0C, CHR 0x0D,
                CHR 0x1C, CHR 0x1D, CHR 0x1E, CHR 0x1F, CHR 0x20]"

definition strip :: "string \<Rightarrow> string" where
  "strip s = rev (dropWhile isspace (rev (dropWhile isspace s)))"

text \<open>\<^verbatim>\<open>s.rstrip(chars)\<close>: every trailing character that occurs in \<open>chars\<close> goes.\<close>

definition rstrip :: "string \<Rightarrow> string \<Rightarrow> string" where
  "rstrip s chars = rev (dropWhile (\<lambda>c. c \<in> set chars) (rev s))"

definition ascii_lowercase :: string where
  "ascii_lowercase = ''abcdefghijklmnopqrstuvwxyz''"

definition ascii_uppercase :: string where
  "ascii_uppercase = ''ABCDEFGHIJKLMNOPQRSTUVWXYZ''"

definition upper_char :: "char \<Rightarrow> char" where
  "upper_char c =
     (case map_of (zip ascii_lowercase ascii_uppercase) c of Some u \<Rightarrow> u | None \<Rightarrow> c)"

definition lower_char :: "char \<Rightarrow> char" where
  "lower_char c =
     (case map_of (zip ascii_uppercase ascii_lowercase) c of Some l \<Rightarrow> l | None \<Rightarrow> c)"

definition upper :: "string \<Rightarrow> string" where
  "upper s = map upper_char s"

definition lower :: "string \<Rightarrow> string" where
  "lower s = map lower_char s"

fun capitalize :: "string \<Rightarrow> string" where
  "capitalize [] = []"
| "capitalize (c # cs) = upper_char c # map lower_char cs"

subsection \<open>Paths and the filesystem\<close>

type_synonym path = "string list"

text \<open>\<^verbatim>\<open>str(p)\<close> and \<^verbatim>\<open>p.name\<close> of an absolute path.\<close>

definition path_str :: "path \<Rightarrow> string" where
  "path_str p = (if p = [] then ''/'' else concat (map (\<lambda>c. ''/'' @ c) p))"

definition path_name :: "path \<Rightarrow> string" where
  "path_name p = (if p = [] then [] else last p)"

datatype node = File string | Dir "(string \<times> node) list"

datatype error = ValueError | IsADirectoryError | NotADirectoryError | FileNotFoundError

fun is_dir :: "node \<Rightarrow> bool" where
  "is_dir (Dir es) = True"
| "is_dir (File c) = False"

fun lookup :: "path \<Rightarrow> node \<Rightarrow> node option" where
  "lookup [] n = Some n"
| "lookup (x # p) (File c) = None"
| "lookup (x # p) (Dir es) = (case map_of es x of None \<Rightarrow> None | Some n \<Rightarrow> lookup p n)"

definition exists :: "path \<Rightarrow> node \<Rightarrow> bool" where
  "exists p fs \<longleftrightarrow> lookup p fs \<noteq> None"

text \<open>
  \<^verbatim>\<open>Path.read_text\<close>, \<^verbatim>\<open>Path.write_text\<close> and \<^verbatim>\<open>Path.unlink\<close>. Writing replaces the content
  of a file where it stands in its directory and enters a new file after the entries
  already there. Reading in text mode turns \<^verbatim>\<open>\r\n\<close> and \<^verbatim>\<open>\r\<close> into \<^verbatim>\<open>\n\<close>; writing
  leaves \<^verbatim>\<open>\n\<close> as it is. \<open>unlink\<close> is never called on the root of the tree.
\<close>

fun universal_newlines :: "string \<Rightarrow> string" where
  "universal_newlines [] = []"
| "universal_newlines [c] = [if c = CHR 0x0D then CHR 0x0A else c]"
| "universal_newlines (c # d # cs) =
     (if c = CHR 0x0D then
        (if d = CHR 0x0A then CHR 0x0A # universal_newlines cs
         else CHR 0x0A # universal_newlines (d # cs))
      else c # universal_newlines (d # cs))"

definition read_text :: "path \<Rightarrow> node \<Rightarrow> error + string" where
  "read_text p fs =
     (case lookup p fs of
        None \<Rightarrow> Inl FileNotFoundError
      | Some (Dir es) \<Rightarrow> Inl IsADirectoryError
      | Some (File c) \<Rightarrow> Inr (universal_newlines c))"

fun write_text :: "path \<Rightarrow> string \<Rightarrow> node \<Rightarrow> error + node" where
  "write_text [] content (File c) = Inr (File content)"
| "write_text [] content (Dir es) = Inl IsADirectoryError"
| "write_text (x # p) content (File c) = Inl NotADirectoryError"
| "write_text (x # p) content (Dir es) =
     (case map_of es x of
        None \<Rightarrow> if p = [] then Inr (Dir (es @ [(x, File content)])) else Inl FileNotFoundError
      | Some n \<Rightarrow>
          (case write_text p content n of
             Inl e \<Rightarrow> Inl e
           | Inr n' \<Rightarrow> Inr (Dir (AList.update x n' es))))"

fun unlink :: "path \<Rightarrow> node \<Rightarrow> error + node" where
  "unlink [] n = Inl IsADirectoryError"
| "unlink (x # p) (File c) = Inl NotADirectoryError"
| "unlink (x # p) (Dir es) =
     (case map_of es x of
        None \<Rightarrow> Inl FileNotFoundError
      | Some n \<Rightarrow>
          if p = [] then
            (if is_dir n then Inl IsADirectoryError else Inr (Dir (AList.delete x es)))
          else
            (case unlink p n of
               Inl e \<Rightarrow> Inl e
             | Inr n' \<Rightarrow> Inr (Dir (AList.update x n' es))))"

text \<open>
  \<^verbatim>\<open>os.walk(top)\<close>, top down, links not followed. Each item is
  \<^verbatim>\<open>(dirpath, dirnames, filenames)\<close> as the walk yields it. The caller prunes
  \<^verbatim>\<open>dirnames\<close> in place before the walk descends; \<open>keep\<close> is the test of that pruning.
  The walk lists a directory once, when it reaches it, and the loops of this program
  only create or delete regular files in the directory just yielded, so the items are
  those of the tree as it stands when the loop starts.
\<close>

definition dirnames_of :: "(string \<times> node) list \<Rightarrow> string list" where
  "dirnames_of es = map fst (filter (\<lambda>e. is_dir (snd e)) es)"

definition filenames_of :: "(string \<times> node) list \<Rightarrow> string list" where
  "filenames_of es = map fst (filter (\<lambda>e. \<not> is_dir (snd e)) es)"

fun os_walk :: "(string \<Rightarrow> bool) \<Rightarrow> path \<Rightarrow> node \<Rightarrow> (path \<times> string list \<times> string list) list" where
  "os_walk keep p (File c) = []"
| "os_walk keep p (Dir es) =
     (p, dirnames_of es, filenames_of es)
     # concat (map (\<lambda>e. os_walk keep (p @ [fst e]) (snd e))
                   (filter (\<lambda>e. is_dir (snd e) \<and> keep (fst e)) es))"

subsection \<open>The generator\<close>

record generator =
  root_path :: path
  format :: string
  include_rules :: bool
  include_tree :: bool
  custom_rules :: "(string \<times> string) list"

text \<open>
  \<^verbatim>\<open>SignpostGenerator.__init__\<close>. \<open>world\<close> is what the filesystem holds at the resolved
  root path, \<open>None\<close> when nothing is there; it is returned as the constructor leaves it.
  \<^verbatim>\<open>custom_rules\<close> is a dictionary, held as its items in insertion order.
\<close>

definition SignpostGenerator ::
  "node option \<Rightarrow> path \<Rightarrow> string \<Rightarrow> bool \<Rightarrow> bool \<Rightarrow> (string \<times> string) list option
   \<Rightarrow> (error + generator) \<times> node option" where
  "SignpostGenerator world root fmt rules tree custom =
     (let self = \<lparr>root_path = root, format = fmt, include_rules = rules, include_tree = tree,
                  custom_rules = (case custom of None \<Rightarrow> [] | Some d \<Rightarrow> d)\<rparr>
      in if world = None then (Inl ValueError, world) else (Inr self, world))"

text \<open>The test of both pruning comprehensions, in \<^verbatim>\<open>create_signposts\<close> and in the validators.\<close>

definition not_excluded :: "string \<Rightarrow> bool" where
  "not_excluded d \<longleftrightarrow>
     \<not> startswith d ''.'' \<and>
     d \<notin> set [''node_modules'', ''__pycache__'', ''venv'', ''env'', ''.git'']"

definition role_map :: "(string \<times> string) list" where
  "role_map =
    [(''src'', ''Source code''), (''source'', ''Source code''), (''lib'', ''Library code''),
     (''tests'', ''Test suite''), (''test'', ''Test suite''), (''docs'', ''Documentation''),
     (''documentation'', ''Documentation''), (''examples'', ''Example code''),
     (''scripts'', ''Utility scripts''), (''config'', ''Configuration files''),
     (''data'', ''Data files''), (''models'', ''Data models''), (''views'', ''View templates''),
     (''controllers'', ''Controller logic''), (''routes'', ''Route definitions''),
     (''middleware'', ''Middleware components''), (''utils'', ''Utility functions''),
     (''helpers'', ''Helper functions''), (''services'', ''Service layer''),
     (''api'', ''API implementation''), (''static'', ''Static assets''),
     (''public'', ''Public files''), (''assets'', ''Asset files''),
     (''components'', ''UI components''), (''pages'', ''Page components''),
     (''layouts'', ''Layout components''), (''hooks'', ''Custom hooks''),
     (''context'', ''Context providers''), (''store'', ''State management''),
     (''types'', ''Type definitions''), (''interfaces'', ''Interface definitions''),
     (''constants'', ''Constants''), (''enums'', ''Enumerations'')]"

text \<open>\<^verbatim>\<open>_infer_directory_role\<close>, of the directory at \<open>dir_path\<close> below the root.\<close>

definition infer_directory_role :: "generator \<Rightarrow> path \<Rightarrow> string" where
  "infer_directory_role self dir_path =
     (let dir_name = lower (path_name (root_path self @ dir_path)) in
      case map_of role_map dir_name of
        Some role \<Rightarrow> role
      | None \<Rightarrow> capitalize dir_name @ '' directory'')"

definition generate_directory_content :: "generator \<Rightarrow> path \<Rightarrow> string \<Rightarrow> string" where
  "generate_directory_content self dir_path role =
     join [CHR 0x0A]
       [''ROOT: '' @ path_str (root_path self) @ ''/'',
        ''HERE: '' @ path_str (root_path self @ dir_path) @ ''/'',
        ''ROLE: '' @ role]"

definition signpost_filename :: "path \<Rightarrow> string" where
  "signpost_filename rel_path = ''_CARDINAL_'' @ join ''_'' (map upper rel_path) @ ''.txt''"

text \<open>
  \<^verbatim>\<open>_create_directory_signpost\<close>: the path written, as an absolute path, and the
  filesystem after the write.
\<close>

definition create_directory_signpost :: "generator \<Rightarrow> path \<Rightarrow> node \<Rightarrow> error + (path \<times> node)" where
  "create_directory_signpost self dir_path fs =
     (let filename = signpost_filename dir_path;
          signpost_path = dir_path @ [filename];
          role = infer_directory_role self dir_path;
          content = generate_directory_content self dir_path role
      in case write_text signpost_path content fs of
           Inl e \<Rightarrow> Inl e
         | Inr fs' \<Rightarrow> Inr (root_path self @ signpost_path, fs'))"

text \<open>
  \<^verbatim>\<open>_generate_tree\<close>, whose \<^verbatim>\<open>max_depth\<close> is always its default 3. \<open>tree_shown\<close> is the
  test of its filter; \<open>glyph_last\<close>, \<open>glyph_mid\<close> and \<open>glyph_bar\<close> are the three
  box-drawing prefixes.
\<close>

definition tree_shown :: "string \<Rightarrow> bool" where
  "tree_shown n \<longleftrightarrow>
     \<not> startswith n ''.'' \<and> n \<notin> set [''node_modules'', ''__pycache__'', ''venv'', ''env'']"

definition glyph_last :: string where
  "glyph_last = [CHR 0xE2, CHR 0x94, CHR 0x94, CHR 0xE2, CHR 0x94, CHR 0x80,
                 CHR 0xE2, CHR 0x94, CHR 0x80, CHR '' '']"

definition glyph_mid :: string where
  "glyph_mid = [CHR 0xE2, CHR 0x94, CHR 0x9C, CHR 0xE2, CHR 0x94, CHR 0x80,
                CHR 0xE2, CHR 0x94, CHR 0x80, CHR '' '']"

definition glyph_bar :: string where
  "glyph_bar = [CHR 0xE2, CHR 0x94, CHR 0x82, CHR '' '', CHR '' '', CHR '' '']"

definition sorted_items :: "(string \<times> node) list \<Rightarrow> (string \<times> node) list" where
  "sorted_items es =
     filter (\<lambda>i. tree_shown (fst i)) (sort_key (\<lambda>x. (\<not> is_dir (snd x), fst x)) es)"

function build_tree :: "nat \<Rightarrow> (string \<times> node) list \<Rightarrow> string \<Rightarrow> nat \<Rightarrow> string list" where
  "build_tree max_depth es prefix depth =
     (if depth > max_depth then []
      else
        let items = sorted_items es in
        concat (map (\<lambda>(i, item).
            let is_last = (i = length items - 1);
                current_prefix = (if is_last then glyph_last else glyph_mid)
            in (prefix @ current_prefix @ fst item @ (if is_dir (snd item) then ''/'' else []))
               # (case snd item of
                    Dir sub \<Rightarrow>
                      build_tree max_depth sub
                        (prefix @ (if is_last then ''    '' else glyph_bar)) (depth + 1)
                  | File c \<Rightarrow> []))
          (enumerate 0 items)))"
  by pat_completeness auto

termination build_tree
  apply (relation "measure (\<lambda>(m, es, p, d). size_list (size_prod (\<lambda>_. 0) size) es)")
   apply simp
  apply (clarsimp simp: sorted_items_def enumerate_eq_zip dest!: set_zip_rightD)
  apply (erule size_list_estimation)
  apply simp
  done

declare build_tree.simps [simp del]

text \<open>
  \<^verbatim>\<open>_generate_tree(self.root_path)\<close>. \<^verbatim>\<open>iterdir\<close> of a root that is a regular file raises
  \<^verbatim>\<open>NotADirectoryError\<close>, which the handler for \<^verbatim>\<open>PermissionError\<close> does not catch.
\<close>

definition generate_tree :: "generator \<Rightarrow> node \<Rightarrow> error + string list" where
  "generate_tree self fs =
     (case fs of
        File c \<Rightarrow> Inl NotADirectoryError
      | Dir es \<Rightarrow> Inr ((path_name (root_path self) @ ''/'') # build_tree 3 es [] 0))"

definition banner :: string where
  "banner = concat (replicate 60 [CHR 0xE2, CHR 0x95, CHR 0x90])"

definition rules_block :: "string list" where
  "rules_block =
     [''BEFORE GENERATING CODE:'',
      ''1. pwd && ls -la'',
      ''2. cat _CARDINAL_*.txt (signpost in current directory)'',
      ''3. State absolute path out loud'',
      ''4. Verify file doesn't already exist'',
      [],
      ''CONSTITUTIONAL RULES:'',
      ''- Absolute paths only, never use relative paths'',
      ''- ONE config location (verify before creating config)'',
      ''- NO new directories without explicit approval'',
      ''- Generate ONE file per operation, then STOP'',
      ''- All imports must use absolute paths'',
      [],
      ''VIOLATION = HALT IMMEDIATELY'',
      []]"

text \<open>
  \<^verbatim>\<open>_generate_root_content\<close>. \<open>root_lines\<close> is the list \<^verbatim>\<open>lines\<close> when the function reaches
  the test of \<^verbatim>\<open>include_tree\<close>.
\<close>

definition root_lines :: "generator \<Rightarrow> string list" where
  "root_lines self =
     (let lines0 =
            [banner, ''CARDINAL RULES - READ BEFORE ANY OPERATION'', banner, [],
             ''ROOT: '' @ path_str (root_path self) @ ''/'',
             ''HERE: '' @ path_str (root_path self) @ ''/'',
             ''ROLE: Project root directory'',
             []];
          lines1 = (if include_rules self then lines0 @ rules_block else lines0)
      in if custom_rules self \<noteq> [] then
           lines1 @ [''CUSTOM RULES:'']
           @ map (\<lambda>(key, value). ''- '' @ key @ '': '' @ value) (custom_rules self)
           @ [[]]
         else lines1)"

definition generate_root_content :: "generator \<Rightarrow> node \<Rightarrow> error + string" where
  "generate_root_content self fs =
     (if include_tree self then
        (case generate_tree self fs of
           Inl e \<Rightarrow> Inl e
         | Inr tree \<Rightarrow>
             Inr (join [CHR 0x0A] (root_lines self @ [''DIRECTORY STRUCTURE:''] @ tree @ [[]])))
      else Inr (join [CHR 0x0A] (root_lines self)))"

definition create_root_signpost :: "generator \<Rightarrow> node \<Rightarrow> error + (path \<times> node)" where
  "create_root_signpost self fs =
     (let signpost_path = [''_CARDINAL_ROOT.txt''] in
      case generate_root_content self fs of
        Inl e \<Rightarrow> Inl e
      | Inr content \<Rightarrow>
          (case write_text signpost_path content fs of
             Inl e \<Rightarrow> Inl e
           | Inr fs' \<Rightarrow> Inr (root_path self @ signpost_path, fs')))"

text \<open>
  The loop of \<^verbatim>\<open>create_signposts\<close> over the items of the walk; \<open>created\<close> and the
  filesystem are its state. A \<^verbatim>\<open>Path\<close> is always true, so every signpost is appended.
\<close>

fun create_loop ::
  "generator \<Rightarrow> int \<Rightarrow> (path \<times> string list \<times> string list) list \<Rightarrow> path list \<Rightarrow> node
   \<Rightarrow> error + (path list \<times> node)" where
  "create_loop self max_depth [] created fs = Inr (created, fs)"
| "create_loop self max_depth ((current_path, dirnames, filenames) # rest) created fs =
     (let depth = int (length current_path) in
      if depth = 0 \<or> depth > max_depth then create_loop self max_depth rest created fs
      else
        (case create_directory_signpost self current_path fs of
           Inl e \<Rightarrow> Inl e
         | Inr (signpost, fs') \<Rightarrow> create_loop self max_depth rest (created @ [signpost]) fs'))"

definition create_signposts :: "generator \<Rightarrow> int \<Rightarrow> node \<Rightarrow> error + (path list \<times> node)" where
  "create_signposts self max_depth fs =
     (case create_root_signpost self fs of
        Inl e \<Rightarrow> Inl e
      | Inr (root_signpost, fs1) \<Rightarrow>
          create_loop self max_depth (os_walk not_excluded [] fs1) [root_signpost] fs1)"

text \<open>\<^verbatim>\<open>remove\<close>: the inner loop over the file names of one directory, then the walk.\<close>

definition is_signpost_name :: "string \<Rightarrow> bool" where
  "is_signpost_name f \<longleftrightarrow> startswith f ''_CARDINAL_'' \<and> endswith f ''.txt''"

fun remove_files :: "path \<Rightarrow> string list \<Rightarrow> nat \<Rightarrow> node \<Rightarrow> error + (nat \<times> node)" where
  "remove_files dirpath [] removed fs = Inr (removed, fs)"
| "remove_files dirpath (filename # rest) removed fs =
     (if is_signpost_name filename then
        (case unlink (dirpath @ [filename]) fs of
           Inl e \<Rightarrow> Inl e
         | Inr fs' \<Rightarrow> remove_files dirpath rest (removed + 1) fs')
      else remove_files dirpath rest removed fs)"

fun remove_loop ::
  "(path \<times> string list \<times> string list) list \<Rightarrow> nat \<Rightarrow> node \<Rightarrow> error + (nat \<times> node)" where
  "remove_loop [] removed fs = Inr (removed, fs)"
| "remove_loop ((dirpath, dirnames, filenames) # rest) removed fs =
     (case remove_files dirpath filenames removed fs of
        Inl e \<Rightarrow> Inl e
      | Inr (removed', fs') \<Rightarrow> remove_loop rest removed' fs')"

definition remove :: "generator \<Rightarrow> node \<Rightarrow> error + (nat \<times> node)" where
  "remove self fs = remove_loop (os_walk (\<lambda>d. True) [] fs) 0 fs"

definition update :: "generator \<Rightarrow> node \<Rightarrow> error + (path list \<times> node)" where
  "update self fs =
     (case remove self fs of
        Inl e \<Rightarrow> Inl e
      | Inr (removed, fs') \<Rightarrow> create_signposts self 10 fs')"

subsection \<open>The validator\<close>

text \<open>
  The issues are the messages of the source, each constructor one format string:
  its arguments are the values the message prints.
\<close>

datatype issue =
    MissingRootSignpost path
  | CannotRead path error
  | MissingField string path
  | IncorrectRoot path string string
  | IncorrectHere path string string
  | MissingSignpost path
  | MultipleSignposts path

text \<open>
  \<^verbatim>\<open>line.split(label)[1].strip().rstrip('/')\<close>. The line starts with the label, so the
  split has a second piece (\<open>str_split_startswith\<close> below) and the last case is never taken.
\<close>

definition field_value :: "string \<Rightarrow> string \<Rightarrow> string" where
  "field_value line label =
     (case str_split line label of
        p0 # p1 # ps \<Rightarrow> rstrip (strip p1) ''/''
      | _ \<Rightarrow> [])"

text \<open>
  \<^verbatim>\<open>_validate_signpost_content\<close>. \<open>signpost_path\<close> is below the root, so
  \<^verbatim>\<open>signpost_path.relative_to(root_path)\<close> is \<open>signpost_path\<close> itself and \<^verbatim>\<open>signpost_path.parent\<close>
  is \<open>root_path @ butlast signpost_path\<close>.
\<close>

definition validate_signpost_content :: "path \<Rightarrow> node \<Rightarrow> path \<Rightarrow> bool \<times> issue list" where
  "validate_signpost_content root fs signpost_path =
     (case read_text signpost_path fs of
        Inl e \<Rightarrow> (False, [CannotRead (root @ signpost_path) e])
      | Inr content \<Rightarrow>
          (let required_fields = [''ROOT:'', ''HERE:'', ''ROLE:''];
               issues0 =
                 map (\<lambda>field. MissingField field signpost_path)
                   (filter (\<lambda>field. \<not> str_in field content) required_fields);
               lines = str_split content [CHR 0x0A];
               issues1 =
                 (case find (\<lambda>l. startswith l ''ROOT:'') lines of
                    None \<Rightarrow> issues0
                  | Some root_line \<Rightarrow>
                      (let root_value = field_value root_line ''ROOT:'';
                           expected_root = path_str root
                       in if root_value \<noteq> expected_root
                          then issues0 @ [IncorrectRoot signpost_path expected_root root_value]
                          else issues0));
               issues2 =
                 (case find (\<lambda>l. startswith l ''HERE:'') lines of
                    None \<Rightarrow> issues1
                  | Some here_line \<Rightarrow>
                      (let here_value = field_value here_line ''HERE:'';
                           expected_here = path_str (root @ butlast signpost_path)
                       in if here_value \<noteq> expected_here
                          then issues1 @ [IncorrectHere signpost_path expected_here here_value]
                          else issues1))
           in (issues2 = [], issues2)))"

text \<open>One turn of the loop of \<^verbatim>\<open>validate_signposts\<close>: the issues it appends.\<close>

definition validate_directory ::
  "path \<Rightarrow> node \<Rightarrow> path \<times> string list \<times> string list \<Rightarrow> issue list" where
  "validate_directory root fs item =
     (case item of (current_dir, dirnames, filenames) \<Rightarrow>
        if current_dir = [] then []
        else
          let signpost_files = filter is_signpost_name filenames in
          if signpost_files = [] then [MissingSignpost current_dir]
          else
            (if length signpost_files > 1 then [MultipleSignposts current_dir] else [])
            @ (let signpost_path = current_dir @ [signpost_files ! 0];
                   (valid, content_issues) = validate_signpost_content root fs signpost_path
               in if \<not> valid then content_issues else []))"

fun validate_loop ::
  "path \<Rightarrow> node \<Rightarrow> (path \<times> string list \<times> string list) list \<Rightarrow> issue list \<Rightarrow> issue list" where
  "validate_loop root fs [] issues = issues"
| "validate_loop root fs (item # rest) issues =
     validate_loop root fs rest (issues @ validate_directory root fs item)"

text \<open>
  \<open>validate_issues\<close> is the list \<^verbatim>\<open>issues\<close> when \<^verbatim>\<open>validate_signposts\<close> returns, and
  \<open>validate_signposts\<close> its result.
\<close>

definition validate_issues :: "path \<Rightarrow> node \<Rightarrow> issue list" where
  "validate_issues root fs =
     (let root_signpost = [''_CARDINAL_ROOT.txt''] in
      if \<not> exists root_signpost fs then [MissingRootSignpost (root @ root_signpost)]
      else
        let (root_valid, root_issues) = validate_signpost_content root fs root_signpost;
            issues = (if \<not> root_valid then root_issues else [])
        in validate_loop root fs (os_walk not_excluded [] fs) issues)"

definition validate_signposts :: "path \<Rightarrow> node \<Rightarrow> bool" where
  "validate_signposts root fs =
     (if \<not> exists [''_CARDINAL_ROOT.txt''] fs then False
      else if validate_issues root fs \<noteq> [] then False
      else True)"

definition validate :: "generator \<Rightarrow> node \<Rightarrow> bool" where
  "validate self fs = validate_signposts (root_path self) fs"

subsection \<open>Notions used in the statements\<close>

text \<open>
  The directories for which the loop of \<^verbatim>\<open>create_signposts\<close> writes a signpost (those its
  test on \<^verbatim>\<open>depth\<close> does not skip), and the content it writes for one of them.
\<close>

definition signpost_dirs :: "int \<Rightarrow> (path \<times> string list \<times> string list) list \<Rightarrow> path list" where
  "signpost_dirs max_depth items =
     filter (\<lambda>p. \<not> (int (length p) = 0 \<or> int (length p) > max_depth)) (map fst items)"

definition directory_signpost_content :: "generator \<Rightarrow> path \<Rightarrow> string" where
  "directory_signpost_content self dir_path =
     generate_directory_content self dir_path (infer_directory_role self dir_path)"

text \<open>
  What stands at \<open>p\<close> once \<^verbatim>\<open>create_signposts\<close> has run, and once it has run a second
  time on the tree the first run left; \<open>None\<close> also when a run raised.
\<close>

definition signpost_after_create :: "generator \<Rightarrow> int \<Rightarrow> node \<Rightarrow> path \<Rightarrow> node option" where
  "signpost_after_create self max_depth fs p =
     (case create_signposts self max_depth fs of
        Inl e \<Rightarrow> None
      | Inr (created, fs') \<Rightarrow> lookup p fs')"


text \<open>The project of the test suite: \<^verbatim>\<open>src\<close>, \<^verbatim>\<open>src/models\<close>, \<^verbatim>\<open>tests\<close> and \<^verbatim>\<open>config\<close> under \<^verbatim>\<open>/r\<close>.\<close>

definition scenario_generator :: generator where
  "scenario_generator =
     \<lparr>root_path = [''r''], format = ''txt'', include_rules = True, include_tree = False,
      custom_rules = []\<rparr>"


definition scenario_tree :: node where
  "scenario_tree =
     Dir [(''src'', Dir [(''models'', Dir [])]), (''tests'', Dir []), (''config'', Dir [])]"

definition scenario_result :: node where
  "scenario_result =
     Dir [(''src'',
           Dir [(''models'',
                 Dir [(''_CARDINAL_SRC_MODELS.txt'',
                       File ''ROOT: /r/\<newline>HERE: /r/src/models/\<newline>ROLE: Data models'')]),
                (''_CARDINAL_SRC.txt'', File ''ROOT: /r/\<newline>HERE: /r/src/\<newline>ROLE: Source code'')]),
          (''tests'',
           Dir [(''_CARDINAL_TESTS.txt'', File ''ROOT: /r/\<newline>HERE: /r/tests/\<newline>ROLE: Test suite'')]),
          (''config'',
           Dir [(''_CARDINAL_CONFIG.txt'',
                 File ''ROOT: /r/\<newline>HERE: /r/config/\<newline>ROLE: Configuration files'')]),
          (''_CARDINAL_ROOT.txt'', File (join [CHR 0x0A] (root_lines scenario_generator)))]"

definition scenario_created :: "path list" where
  "scenario_created =
     [[''r'', ''_CARDINAL_ROOT.txt''], [''r'', ''src'', ''_CARDINAL_SRC.txt''],
      [''r'', ''src'', ''models'', ''_CARDINAL_SRC_MODELS.txt''],
      [''r'', ''tests'', ''_CARDINAL_TESTS.txt''],
      [''r'', ''config'', ''_CARDINAL_CONFIG.txt'']]"

text \<open>\<^verbatim>\<open>create_signposts\<close> followed by \<^verbatim>\<open>validate\<close> on the tree it leaves.\<close>

definition create_then_validate :: "generator \<Rightarrow> int \<Rightarrow> node \<Rightarrow> error + bool" where
  "create_then_validate self max_depth fs =
     (case create_signposts self max_depth fs of
        Inl e \<Rightarrow> Inl e
      | Inr (created, fs') \<Rightarrow> Inr (validate self fs'))"

text \<open>A project whose only directory is named \<^verbatim>\<open>HERE:x\<close>, before and after \<^verbatim>\<open>create_signposts\<close>.\<close>

definition label_tree :: node where
  "label_tree = Dir [(''HERE:x'', Dir [])]"

definition label_result :: node where
  "label_result =
     Dir [(''HERE:x'',
           Dir [(''_CARDINAL_HERE:X.txt'', File ''ROOT: /r/\<newline>HERE: /r/HERE:x/\<newline>ROLE: Here:x directory'')]),
          (''_CARDINAL_ROOT.txt'', File (join [CHR 0x0A] (root_lines scenario_generator)))]"

text \<open>
  A project in which the directory \<^verbatim>\<open>src\<close> holds a signpost under a name that the
  generator would not give it, and one in which \<^verbatim>\<open>src\<close> holds two signposts and
  \<^verbatim>\<open>docs\<close> none.
\<close>

definition renamed_tree :: node where
  "renamed_tree =
     Dir [(''src'', Dir [(''_CARDINAL_OLD_NAME.txt'', File ''ROOT: /r/\<newline>HERE: /r/src/\<newline>ROLE: Source code'')]),
          (''_CARDINAL_ROOT.txt'', File ''ROOT: /r/\<newline>HERE: /r/\<newline>ROLE: Project root directory'')]"

definition untidy_tree :: node where
  "untidy_tree =
     Dir [(''src'',
           Dir [(''_CARDINAL_B.txt'', File ''ROOT: /elsewhere/\<newline>HERE: /r/src/\<newline>ROLE: Source code''),
                (''notes.txt'', File ''ROOT: /r/''),
                (''_CARDINAL_SRC.txt'', File ''ROOT: /r/\<newline>HERE: /r/src/\<newline>ROLE: Source code'')]),
          (''docs'', Dir [(''readme.md'', File [])]),
          (''_CARDINAL_ROOT.txt'', File ''ROOT: /r/\<newline>HERE: /r/\<newline>ROLE: Project root directory'')]"

text \<open>A root signpost whose paths carry blanks around them and several slashes at the end.\<close>

definition slashes_tree :: node where
  "slashes_tree =
     Dir [(''_CARDINAL_ROOT.txt'',
           File ''ROOT:   /r///\<newline>HERE: /r//  \<newline>ROLE: Project root directory'')]"

text \<open>
  A project with excluded directories, before and after \<^verbatim>\<open>create_signposts\<close>, and one whose
  \<^verbatim>\<open>.git\<close> directory holds a file named as a signpost.
\<close>

definition excluded_tree :: node where
  "excluded_tree =
     Dir [(''.git'', Dir [(''hooks'', Dir [])]),
          (''node_modules'', Dir [(''pkg'', Dir [])]),
          (''src'', Dir [])]"

definition excluded_result :: node where
  "excluded_result =
     Dir [(''.git'', Dir [(''hooks'', Dir [])]),
          (''node_modules'', Dir [(''pkg'', Dir [])]),
          (''src'', Dir [(''_CARDINAL_SRC.txt'', File ''ROOT: /r/\<newline>HERE: /r/src/\<newline>ROLE: Source code'')]),
          (''_CARDINAL_ROOT.txt'', File (join [CHR 0x0A] (root_lines scenario_generator)))]"

definition hidden_signpost_tree :: node where
  "hidden_signpost_tree = Dir [(''.git'', Dir [(''_CARDINAL_X.txt'', File [])])]"

text \<open>
  What \<^verbatim>\<open>remove\<close> is specified to do, written on the tree: \<open>count_signposts\<close> is the number
  of files anywhere in the tree whose name starts with \<^verbatim>\<open>_CARDINAL_\<close> and ends with \<^verbatim>\<open>.txt\<close>,
  \<open>strip_signposts\<close> is the tree without them. In a tree of a filesystem the names in a
  directory are distinct: \<open>wf_node\<close>.
\<close>

fun wf_node :: "node \<Rightarrow> bool" where
  "wf_node (File c) = True"
| "wf_node (Dir es) = (distinct (map fst es) \<and> list_all (\<lambda>e. wf_node (snd e)) es)"

fun count_signposts :: "node \<Rightarrow> nat" where
  "count_signposts (File c) = 0"
| "count_signposts (Dir es) =
     length (filter is_signpost_name (filenames_of es))
     + sum_list (map (\<lambda>e. count_signposts (snd e)) es)"

fun strip_signposts :: "node \<Rightarrow> node" where
  "strip_signposts (File c) = File c"
| "strip_signposts (Dir es) =
     Dir (map (\<lambda>e. (fst e, strip_signposts (snd e)))
              (filter (\<lambda>e. is_dir (snd e) \<or> \<not> is_signpost_name (fst e)) es))"

section \<open>Properties\<close>

subsection \<open>Writing a file: what it changes and what it leaves\<close>

lemma write_text_same:
  "write_text a c fs = Inr fs' \<Longrightarrow> lookup a fs' = Some (File c)"
proof (induction a c fs arbitrary: fs' rule: write_text.induct)
  case (4 x p content es)
  then show ?case
    by (auto split: option.splits sum.splits if_splits simp: AList.update_conv')
qed auto

lemma write_text_frame:
  "write_text a c fs = Inr fs' \<Longrightarrow> take (length b) a \<noteq> b \<Longrightarrow> lookup b fs' = lookup b fs"
proof (induction a c fs arbitrary: fs' b rule: write_text.induct)
  case (1 content c)
  then show ?case by (cases b) auto
next
  case (4 x p content es)
  show ?case
  proof (cases b)
    case Nil
    with 4 show ?thesis by simp
  next
    case (Cons y b')
    show ?thesis
    proof (cases "map_of es x")
      case None
      with 4 Cons show ?thesis
        by (cases b') (auto split: if_splits simp: map_add_def split: option.splits)
    next
      case (Some n)
      with 4 Cons show ?thesis
        by (auto split: sum.splits simp: AList.update_conv')
    qed
  qed
qed auto

lemma write_text_other_file:
  "write_text a c fs = Inr fs' \<Longrightarrow> lookup b fs = Some (File d) \<Longrightarrow> a \<noteq> b
   \<Longrightarrow> lookup b fs' = Some (File d)"
proof (induction a c fs arbitrary: fs' b rule: write_text.induct)
  case (1 content c)
  then show ?case by (cases b) auto
next
  case (4 x p content es)
  show ?case
  proof (cases b)
    case Nil
    with 4 show ?thesis by simp
  next
    case (Cons y b')
    show ?thesis
    proof (cases "map_of es x")
      case None
      with 4 Cons show ?thesis
        by (auto split: if_splits simp: map_add_def split: option.splits)
    next
      case (Some n)
      with 4 Cons show ?thesis
        by (auto split: sum.splits option.splits simp: AList.update_conv')
    qed
  qed
qed auto





lemma create_loop_Cons:
  "create_loop g md ((q, d, f) # rest) cr fs =
     (if q = [] \<or> int (length q) > md then create_loop g md rest cr fs
      else case write_text (q @ [signpost_filename q]) (directory_signpost_content g q) fs of
             Inl e \<Rightarrow> Inl e
           | Inr fs1 \<Rightarrow> create_loop g md rest (cr @ [root_path g @ q @ [signpost_filename q]]) fs1)"
  by (auto simp: create_directory_signpost_def directory_signpost_content_def Let_def
           split: sum.splits)

lemma signpost_dirs_Nil: "signpost_dirs md [] = []"
  by (simp add: signpost_dirs_def)

lemma signpost_dirs_Cons:
  "signpost_dirs md ((q, d, f) # rest) =
     (if q = [] \<or> int (length q) > md then signpost_dirs md rest else q # signpost_dirs md rest)"
  by (simp add: signpost_dirs_def)

lemmas create_loop_step = create_loop_Cons signpost_dirs_Cons signpost_dirs_Nil

lemma create_loop_created:
  "create_loop g md items cr fs = Inr (cr', fs') \<Longrightarrow>
   cr' = cr @ map (\<lambda>p. root_path g @ p @ [signpost_filename p]) (signpost_dirs md items)"
proof (induction items arbitrary: cr fs)
  case (Cons item rest)
  then show ?case
    by (cases item) (fastforce simp: create_loop_step simp del: create_loop.simps split: if_splits sum.splits)
qed (simp add: signpost_dirs_Nil)

lemma create_loop_file_kept:
  "create_loop g md items cr fs = Inr (cr', fs') \<Longrightarrow> lookup b fs = Some (File d) \<Longrightarrow>
   (\<forall>p\<in>set (signpost_dirs md items). b \<noteq> p @ [signpost_filename p]) \<Longrightarrow>
   lookup b fs' = Some (File d)"
proof (induction items arbitrary: cr fs)
  case (Cons item rest)
  obtain q ds fl where item: "item = (q, ds, fl)" by (cases item)
  show ?case
  proof (cases "q = [] \<or> int (length q) > md")
    case True
    with Cons item show ?thesis by (simp add: create_loop_step del: create_loop.simps)
  next
    case False
    with Cons.prems(1) item obtain fs1 where
      w: "write_text (q @ [signpost_filename q]) (directory_signpost_content g q) fs = Inr fs1"
      and l: "create_loop g md rest (cr @ [root_path g @ q @ [signpost_filename q]]) fs1 = Inr (cr', fs')"
      by (auto simp: create_loop_step simp del: create_loop.simps split: sum.splits)
    have "b \<noteq> q @ [signpost_filename q]"
      using Cons.prems(3) False item by (auto simp: create_loop_step)
    then have k: "lookup b fs1 = Some (File d)"
      using write_text_other_file[OF w Cons.prems(2)] by auto
    have r: "\<forall>p\<in>set (signpost_dirs md rest). b \<noteq> p @ [signpost_filename p]"
      using Cons.prems(3) item by (auto simp: create_loop_step split: if_splits)
    show ?thesis
      using Cons.IH[OF l k r] .
  qed
qed simp

lemma create_loop_frame:
  "create_loop g md items cr fs = Inr (cr', fs') \<Longrightarrow>
   (\<forall>p\<in>set (signpost_dirs md items). take (length b) (p @ [signpost_filename p]) \<noteq> b) \<Longrightarrow>
   lookup b fs' = lookup b fs"
proof (induction items arbitrary: cr fs)
  case (Cons item rest)
  obtain q ds fl where item: "item = (q, ds, fl)" by (cases item)
  show ?case
  proof (cases "q = [] \<or> int (length q) > md")
    case True
    with Cons item show ?thesis by (simp add: create_loop_step del: create_loop.simps)
  next
    case False
    with Cons.prems(1) item obtain fs1 where
      w: "write_text (q @ [signpost_filename q]) (directory_signpost_content g q) fs = Inr fs1"
      and l: "create_loop g md rest (cr @ [root_path g @ q @ [signpost_filename q]]) fs1 = Inr (cr', fs')"
      by (auto simp: create_loop_step simp del: create_loop.simps split: sum.splits)
    have "take (length b) (q @ [signpost_filename q]) \<noteq> b"
      using Cons.prems(2) False item by (auto simp: create_loop_step)
    then have k: "lookup b fs1 = lookup b fs"
      using write_text_frame[OF w] by auto
    have r: "\<forall>p\<in>set (signpost_dirs md rest). take (length b) (p @ [signpost_filename p]) \<noteq> b"
      using Cons.prems(2) item by (auto simp: create_loop_step split: if_splits)
    show ?thesis
      using Cons.IH[OF l r] k by simp
  qed
qed simp

lemma create_loop_markers:
  "create_loop g md items cr fs = Inr (cr', fs') \<Longrightarrow> p \<in> set (signpost_dirs md items) \<Longrightarrow>
   lookup (p @ [signpost_filename p]) fs' = Some (File (directory_signpost_content g p))"
proof (induction items arbitrary: cr fs)
  case (Cons item rest)
  obtain q ds fl where item: "item = (q, ds, fl)" by (cases item)
  show ?case
  proof (cases "q = [] \<or> int (length q) > md")
    case True
    with Cons item show ?thesis by (simp add: create_loop_step del: create_loop.simps)
  next
    case False
    with Cons.prems(1) item obtain fs1 where
      w: "write_text (q @ [signpost_filename q]) (directory_signpost_content g q) fs = Inr fs1"
      and l: "create_loop g md rest (cr @ [root_path g @ q @ [signpost_filename q]]) fs1 = Inr (cr', fs')"
      by (auto simp: create_loop_step simp del: create_loop.simps split: sum.splits)
    show ?thesis
    proof (cases "p \<in> set (signpost_dirs md rest)")
      case True
      then show ?thesis using Cons.IH[OF l] by simp
    next
      case notin: False
      with Cons.prems(2) False item have eq: "p = q" by (auto simp: create_loop_step)
      have k: "lookup (p @ [signpost_filename p]) fs1 = Some (File (directory_signpost_content g p))"
        using write_text_same[OF w] eq by simp
      have "\<forall>r\<in>set (signpost_dirs md rest). p @ [signpost_filename p] \<noteq> r @ [signpost_filename r]"
        using notin by auto
      then show ?thesis
        using create_loop_file_kept[OF l k] by simp
    qed
  qed
qed (simp add: signpost_dirs_Nil)




lemma os_walk_paths_kept:
  "item \<in> set (os_walk keep p fs) \<Longrightarrow> \<exists>r. fst item = p @ r \<and> (\<forall>c\<in>set r. keep c)"
proof (induction keep p fs arbitrary: item rule: os_walk.induct)
  case (2 keep p es)
  from 2(2) consider "item = (p, dirnames_of es, filenames_of es)"
    | e where "e \<in> set es" "is_dir (snd e)" "keep (fst e)"
        "item \<in> set (os_walk keep (p @ [fst e]) (snd e))"
    by auto
  then show ?case
  proof cases
    case 1
    then show ?thesis by simp
  next
    case 2
    from "2.IH"[of e item] 2 obtain r where "fst item = (p @ [fst e]) @ r" "\<forall>c\<in>set r. keep c"
      by auto
    with 2 show ?thesis by (intro exI[of _ "fst e # r"]) simp
  qed
qed simp

lemma os_walk_contains:
  "lookup r fs = Some (Dir es) \<Longrightarrow> \<forall>c\<in>set r. keep c \<Longrightarrow>
   (p @ r, dirnames_of es, filenames_of es) \<in> set (os_walk keep p fs)"
proof (induction r arbitrary: fs p)
  case Nil
  then show ?case by simp
next
  case (Cons x r)
  from Cons.prems(1) obtain es0 n where fs: "fs = Dir es0" and m: "map_of es0 x = Some n"
    and l: "lookup r n = Some (Dir es)"
    by (cases fs) (auto split: option.splits)
  from l have d: "is_dir n" by (cases n; cases r) auto
  have "(p @ x # r, dirnames_of es, filenames_of es) \<in> set (os_walk keep (p @ [x]) n)"
    using Cons.IH[OF l, of "p @ [x]"] Cons.prems(2) by simp
  moreover have "(x, n) \<in> set es0" using m by (rule map_of_SomeD)
  ultimately show ?case
    using d Cons.prems(2) unfolding fs by (auto intro!: exI[of _ x] exI[of _ n])
qed

subsection \<open>Construction\<close>

text \<open>
  C9. Constructing a generator on a root path at which nothing exists fails at once with
  the \<^verbatim>\<open>ValueError\<close> of \<^verbatim>\<open>__init__\<close> (the configuration error of the specification) and
  leaves the filesystem as it was; on a root path that exists the constructor returns the
  generator, with its fields as given, and again touches nothing.
\<close>

theorem SignpostGenerator_root_must_exist:
  "SignpostGenerator None root fmt rules tree custom = (Inl ValueError, None) \<and>
   SignpostGenerator (Some fs) root fmt rules tree custom =
     (Inr \<lparr>root_path = root, format = fmt, include_rules = rules, include_tree = tree,
           custom_rules = (case custom of None \<Rightarrow> [] | Some d \<Rightarrow> d)\<rparr>, Some fs)"
  by (simp add: SignpostGenerator_def)

subsection \<open>The project of the test suite\<close>

lemmas text_defs =
  startswith_def endswith_def upper_def upper_char_def lower_def lower_char_def
  ascii_lowercase_def ascii_uppercase_def path_str_def path_name_def

lemma scenario_contents:
  "directory_signpost_content scenario_generator [''src''] = ''ROOT: /r/\<newline>HERE: /r/src/\<newline>ROLE: Source code''"
  "directory_signpost_content scenario_generator [''src'', ''models''] = ''ROOT: /r/\<newline>HERE: /r/src/models/\<newline>ROLE: Data models''"
  "directory_signpost_content scenario_generator [''tests''] = ''ROOT: /r/\<newline>HERE: /r/tests/\<newline>ROLE: Test suite''"
  "directory_signpost_content scenario_generator [''config''] = ''ROOT: /r/\<newline>HERE: /r/config/\<newline>ROLE: Configuration files''"
  by (simp_all add: directory_signpost_content_def generate_directory_content_def
        infer_directory_role_def scenario_generator_def role_map_def text_defs)

lemma scenario_names:
  "signpost_filename [''src''] = ''_CARDINAL_SRC.txt''"
  "signpost_filename [''src'', ''models''] = ''_CARDINAL_SRC_MODELS.txt''"
  "signpost_filename [''tests''] = ''_CARDINAL_TESTS.txt''"
  "signpost_filename [''config''] = ''_CARDINAL_CONFIG.txt''"
  by (simp_all add: signpost_filename_def text_defs)

lemma scenario_create:
  "create_signposts scenario_generator 10 scenario_tree = Inr (scenario_created, scenario_result)"
proof -
  have g: "generate_root_content scenario_generator scenario_tree
           = Inr (join [CHR 0x0A] (root_lines scenario_generator))"
    by (simp add: generate_root_content_def scenario_generator_def)
  have r: "root_path scenario_generator = [''r'']" by (simp add: scenario_generator_def)
  show ?thesis
    unfolding create_signposts_def create_root_signpost_def g Let_def
    by (simp add: scenario_tree_def not_excluded_def dirnames_of_def filenames_of_def
        startswith_def create_loop_Cons scenario_names scenario_contents r scenario_result_def
        scenario_created_def del: create_loop.simps(2))
qed

lemma create_signposts_Inr:
  assumes "create_signposts g md fs = Inr (cr, fs')"
  obtains c0 fs1 where "generate_root_content g fs = Inr c0"
    and "write_text [''_CARDINAL_ROOT.txt''] c0 fs = Inr fs1"
    and "create_loop g md (os_walk not_excluded [] fs1) [root_path g @ [''_CARDINAL_ROOT.txt'']] fs1
         = Inr (cr, fs')"
  using assms
  by (auto simp: create_signposts_def create_root_signpost_def Let_def split: sum.splits)


subsection \<open>Names of the signposts\<close>



subsection \<open>The role of \<^verbatim>\<open>src/models\<close>\<close>

lemma models_role: "infer_directory_role g [''src'', ''models''] = ''Data models''"
  by (simp add: infer_directory_role_def role_map_def text_defs)

text \<open>
  C2, as stated, fails: in the project of the test suite the signpost of \<^verbatim>\<open>src/models\<close>
  has the role line \<^verbatim>\<open>ROLE: Data models\<close>, not \<^verbatim>\<open>ROLE: Models directory\<close>, because the role
  table has an entry for \<^verbatim>\<open>models\<close>.
\<close>

theorem models_role_counterexample:
  "signpost_after_create scenario_generator 10 scenario_tree
     [''src'', ''models'', ''_CARDINAL_SRC_MODELS.txt'']
   = Some (File ''ROOT: /r/\<newline>HERE: /r/src/models/\<newline>ROLE: Data models'')"
  by (simp add: signpost_after_create_def scenario_create scenario_result_def)

text \<open>
  C2, amended. For a tree that holds the directory \<^verbatim>\<open>src/models\<close> and a \<^verbatim>\<open>max_depth\<close> of at
  least 2, when \<^verbatim>\<open>create_signposts\<close> returns, the file
  \<^verbatim>\<open>src/models/_CARDINAL_SRC_MODELS.txt\<close> holds the three lines \<^verbatim>\<open>ROOT: <root>/\<close>,
  \<^verbatim>\<open>HERE: <root>/src/models/\<close> and \<^verbatim>\<open>ROLE: Data models\<close>: the name \<^verbatim>\<open>models\<close> has an entry
  in the role table.
\<close>

theorem models_signpost_role:
  assumes "lookup [''src'', ''models''] fs = Some (Dir es)"
    and "2 \<le> max_depth"
    and "create_signposts g max_depth fs = Inr (created, fs')"
  shows "lookup [''src'', ''models'', ''_CARDINAL_SRC_MODELS.txt''] fs' =
           Some (File (''ROOT: '' @ path_str (root_path g) @ ''/'' @ [CHR 0x0A]
                       @ ''HERE: '' @ path_str (root_path g @ [''src'', ''models'']) @ ''/'' @ [CHR 0x0A]
                       @ ''ROLE: Data models''))"
proof -
  from assms(3) obtain c0 fs1 where
    w: "write_text [''_CARDINAL_ROOT.txt''] c0 fs = Inr fs1" and
    l: "create_loop g max_depth (os_walk not_excluded [] fs1) [root_path g @ [''_CARDINAL_ROOT.txt'']] fs1
         = Inr (created, fs')"
    by (rule create_signposts_Inr)
  have "lookup [''src'', ''models''] fs1 = Some (Dir es)"
    using write_text_frame[OF w, of "[''src'', ''models'']"] assms(1) by simp
  moreover have "\<forall>c\<in>set [''src'', ''models'']. not_excluded c"
    by (simp add: not_excluded_def startswith_def)
  ultimately have "([] @ [''src'', ''models''], dirnames_of es, filenames_of es)
      \<in> set (os_walk not_excluded [] fs1)"
    by (rule os_walk_contains)
  then have "[''src'', ''models''] \<in> set (signpost_dirs max_depth (os_walk not_excluded [] fs1))"
    using assms(2) by (force simp: signpost_dirs_def)
  from create_loop_markers[OF l this]
  show ?thesis
    by (simp add: signpost_filename_def upper_def upper_char_def ascii_uppercase_def
          ascii_lowercase_def directory_signpost_content_def generate_directory_content_def
          models_role)
qed

theorem models_signpost_role_witness:
  "lookup [''src'', ''models''] scenario_tree = Some (Dir []) \<and>
   (2::int) \<le> 10 \<and>
   create_signposts scenario_generator 10 scenario_tree = Inr (scenario_created, scenario_result) \<and>
   lookup [''src'', ''models'', ''_CARDINAL_SRC_MODELS.txt''] scenario_result =
     Some (File (''ROOT: '' @ path_str (root_path scenario_generator) @ ''/'' @ [CHR 0x0A]
                 @ ''HERE: '' @ path_str (root_path scenario_generator @ [''src'', ''models''])
                 @ ''/'' @ [CHR 0x0A] @ ''ROLE: Data models''))"
proof -
  have a: "lookup [''src'', ''models''] scenario_tree = Some (Dir [])"
    by (simp add: scenario_tree_def)
  have b: "(2::int) \<le> 10" by simp
  show ?thesis
    using a b scenario_create models_signpost_role[OF a b scenario_create] by (intro conjI)
qed

subsection \<open>Running \<^verbatim>\<open>create_signposts\<close> twice\<close>










subsection \<open>The validator\<close>

lemma validate_loop_concat:
  "validate_loop root fs items issues = issues @ concat (map (validate_directory root fs) items)"
  by (induction items arbitrary: issues) auto

lemma validate_signpost_content_fst:
  "fst (validate_signpost_content root fs sp) \<longleftrightarrow> snd (validate_signpost_content root fs sp) = []"
  by (simp add: validate_signpost_content_def Let_def split: sum.splits)

lemma validate_issues_concat:
  "validate_issues root fs =
     (if \<not> exists [''_CARDINAL_ROOT.txt''] fs
      then [MissingRootSignpost (root @ [''_CARDINAL_ROOT.txt''])]
      else snd (validate_signpost_content root fs [''_CARDINAL_ROOT.txt''])
           @ concat (map (validate_directory root fs) (os_walk not_excluded [] fs)))"
  using validate_signpost_content_fst[of root fs "[''_CARDINAL_ROOT.txt'']"]
  by (auto simp: validate_issues_def validate_loop_concat Let_def split_def)

lemma validate_signposts_iff: "validate_signposts root fs \<longleftrightarrow> validate_issues root fs = []"
  by (simp add: validate_signposts_def validate_issues_concat)

lemma validate_directory_cases:
  "validate_directory root fs (p, dirnames, filenames) =
     (if p = [] then []
      else case filter is_signpost_name filenames of
             [] \<Rightarrow> [MissingSignpost p]
           | f # rest \<Rightarrow>
               (if rest = [] then [] else [MultipleSignposts p])
               @ snd (validate_signpost_content root fs (p @ [f])))"
  using validate_signpost_content_fst[of root fs "p @ [hd (filter is_signpost_name filenames)]"]
  by (auto simp: validate_directory_def Let_def split_def split: list.splits)

subsection \<open>A directory named after a field label\<close>

lemma label_create:
  "create_signposts scenario_generator 10 label_tree =
     Inr ([[''r'', ''_CARDINAL_ROOT.txt''], [''r'', ''HERE:x'', ''_CARDINAL_HERE:X.txt'']],
          label_result)"
proof -
  have g: "generate_root_content scenario_generator label_tree
           = Inr (join [CHR 0x0A] (root_lines scenario_generator))"
    by (simp add: generate_root_content_def scenario_generator_def)
  have r: "root_path scenario_generator = [''r'']" by (simp add: scenario_generator_def)
  have n: "signpost_filename [''HERE:x''] = ''_CARDINAL_HERE:X.txt''"
    by (simp add: signpost_filename_def text_defs)
  have c: "directory_signpost_content scenario_generator [''HERE:x'']
           = ''ROOT: /r/\<newline>HERE: /r/HERE:x/\<newline>ROLE: Here:x directory''"
    by (simp add: directory_signpost_content_def generate_directory_content_def
        infer_directory_role_def scenario_generator_def role_map_def text_defs)
  show ?thesis
    unfolding create_signposts_def create_root_signpost_def g Let_def
    by (simp add: label_tree_def not_excluded_def dirnames_of_def filenames_of_def
        startswith_def create_loop_Cons n c r label_result_def del: create_loop.simps(2))
qed

lemma label_directory_issues:
  "validate_directory [''r''] label_result ([''HERE:x''], [], [''_CARDINAL_HERE:X.txt''])
   = [IncorrectHere [''HERE:x'', ''_CARDINAL_HERE:X.txt''] ''/r/HERE:x'' ''/r'']"
  by (simp add: validate_directory_cases is_signpost_name_def validate_signpost_content_def
        read_text_def label_result_def str_split_def field_value_def strip_def rstrip_def
        isspace_def text_defs Let_def)

text \<open>
  C1. The claim is that \<^verbatim>\<open>create_signposts\<close> followed by \<^verbatim>\<open>validate\<close> gives true on every
  tree. On the project whose only directory is named \<^verbatim>\<open>HERE:x\<close> it gives false: the
  generator writes \<^verbatim>\<open>HERE: /r/HERE:x/\<close>, and the validator, which splits that line at every
  occurrence of the label and keeps the second piece, reads the value \<^verbatim>\<open>/r\<close>.
\<close>

theorem create_then_validate_label_directory:
  "create_then_validate scenario_generator 10 label_tree = Inr False"
proof -
  have w: "os_walk not_excluded [] label_result =
             [([], [''HERE:x''], [''_CARDINAL_ROOT.txt'']),
              ([''HERE:x''], [], [''_CARDINAL_HERE:X.txt''])]"
    by (simp add: label_result_def not_excluded_def dirnames_of_def filenames_of_def
          startswith_def)
  have root_path_scenario: "root_path scenario_generator = [''r'']"
    by (simp add: scenario_generator_def)
  have "validate_issues [''r''] label_result \<noteq> []"
    by (simp add: validate_issues_concat w label_directory_issues)
  then have "\<not> validate_signposts [''r''] label_result"
    by (simp add: validate_signposts_iff)
  then show ?thesis
    by (simp add: create_then_validate_def label_create validate_def root_path_scenario)
qed

text \<open>
  C5. The issues of a validation are those of the root signpost followed by those of the
  directories of the pruned walk, in its order, and the result is true exactly when
  there are none. A directory other than the root with no file named as a signpost
  contributes the issue that the signpost is missing and nothing else, its content not
  being read; with one such file it contributes the issues of the content of that file;
  with several it contributes the issue that there are multiple signposts followed by
  the issues of the content of the first of them in the order of enumeration.
\<close>

theorem validate_signposts_collects:
  "(validate_signposts root fs \<longleftrightarrow> validate_issues root fs = []) \<and>
   validate_issues root fs =
     (if \<not> exists [''_CARDINAL_ROOT.txt''] fs
      then [MissingRootSignpost (root @ [''_CARDINAL_ROOT.txt''])]
      else snd (validate_signpost_content root fs [''_CARDINAL_ROOT.txt''])
           @ concat (map (validate_directory root fs) (os_walk not_excluded [] fs))) \<and>
   (p \<noteq> [] \<and> filter is_signpost_name filenames = [] \<longrightarrow>
      validate_directory root fs (p, dirnames, filenames) = [MissingSignpost p]) \<and>
   (p \<noteq> [] \<and> filter is_signpost_name filenames = [f] \<longrightarrow>
      validate_directory root fs (p, dirnames, filenames)
        = snd (validate_signpost_content root fs (p @ [f]))) \<and>
   (p \<noteq> [] \<and> filter is_signpost_name filenames = f # f' # rest \<longrightarrow>
      validate_directory root fs (p, dirnames, filenames)
        = MultipleSignposts p # snd (validate_signpost_content root fs (p @ [f])))"
  using validate_issues_concat[of root fs]
  by (simp add: validate_signposts_iff validate_directory_cases)

lemma untidy_walk:
  "os_walk not_excluded [] untidy_tree =
     [([], [''src'', ''docs''], [''_CARDINAL_ROOT.txt'']),
      ([''src''], [], [''_CARDINAL_B.txt'', ''notes.txt'', ''_CARDINAL_SRC.txt'']),
      ([''docs''], [], [''readme.md''])]"
  by (simp add: untidy_tree_def not_excluded_def dirnames_of_def filenames_of_def startswith_def)

lemma untidy_filter:
  "filter is_signpost_name [''_CARDINAL_B.txt'', ''notes.txt'', ''_CARDINAL_SRC.txt'']
   = [''_CARDINAL_B.txt'', ''_CARDINAL_SRC.txt'']"
  "filter is_signpost_name [''readme.md''] = []"
  by (simp_all add: is_signpost_name_def startswith_def endswith_def)

theorem validate_signposts_collects_witness:
  "validate_directory [''r''] untidy_tree ([''docs''], [], [''readme.md''])
     = [MissingSignpost [''docs'']] \<and>
   validate_directory [''r''] untidy_tree
       ([''src''], [], [''_CARDINAL_B.txt'', ''notes.txt'', ''_CARDINAL_SRC.txt''])
     = MultipleSignposts [''src'']
       # snd (validate_signpost_content [''r''] untidy_tree ([''src''] @ [''_CARDINAL_B.txt'']))"
proof -
  have a: "[''docs''] \<noteq> [] \<and> filter is_signpost_name [''readme.md''] = []"
    using untidy_filter(2) by simp
  have b: "[''src''] \<noteq> [] \<and>
      filter is_signpost_name [''_CARDINAL_B.txt'', ''notes.txt'', ''_CARDINAL_SRC.txt'']
      = ''_CARDINAL_B.txt'' # ''_CARDINAL_SRC.txt'' # []"
    using untidy_filter(1) by simp
  from validate_signposts_collects[of "[''r'']" untidy_tree "[''docs'']" "[''readme.md'']" "[]"] a
  have 1: "validate_directory [''r''] untidy_tree ([''docs''], [], [''readme.md''])
           = [MissingSignpost [''docs'']]"
    by blast
  from validate_signposts_collects[of "[''r'']" untidy_tree "[''src'']"
        "[''_CARDINAL_B.txt'', ''notes.txt'', ''_CARDINAL_SRC.txt'']" "[]"
        "''_CARDINAL_B.txt''" "''_CARDINAL_SRC.txt''" "[]"] b
  have 2: "validate_directory [''r''] untidy_tree
       ([''src''], [], [''_CARDINAL_B.txt'', ''notes.txt'', ''_CARDINAL_SRC.txt''])
     = MultipleSignposts [''src'']
       # snd (validate_signpost_content [''r''] untidy_tree ([''src''] @ [''_CARDINAL_B.txt'']))"
    by blast
  from 1 2 show ?thesis by (rule conjI)
qed

lemma signpost_filename_is_signpost_name: "is_signpost_name (signpost_filename p)"
  by (simp add: is_signpost_name_def signpost_filename_def startswith_def endswith_def)

lemma validate_signpost_content_name:
  assumes "lookup (p @ [f]) fs = Some (File c)" and "lookup (p @ [f']) fs' = Some (File c)"
  shows "snd (validate_signpost_content root fs (p @ [f])) = [] \<longleftrightarrow>
         snd (validate_signpost_content root fs' (p @ [f'])) = []"
  using assms
  by (simp add: validate_signpost_content_def read_text_def Let_def split: option.splits)

text \<open>
  C10. The validator does not look at the name of a signpost beyond the prefix
  \<^verbatim>\<open>_CARDINAL_\<close> and the suffix \<^verbatim>\<open>.txt\<close>. A directory other than the root whose only file of
  such a name is \<open>f\<close> contributes no issue exactly when a directory at the same path
  holding the same content under the name the generator derives from the path
  contributes none: whether the name \<open>f\<close> encodes that path, another one or none plays
  no part.
\<close>

theorem signpost_name_not_checked:
  assumes "p \<noteq> []"
    and "filter is_signpost_name filenames = [f]"
    and "lookup (p @ [f]) fs = Some (File c)"
    and "lookup (p @ [signpost_filename p]) fs' = Some (File c)"
  shows "validate_directory root fs (p, dirnames, filenames) = [] \<longleftrightarrow>
         validate_directory root fs' (p, dirnames', [signpost_filename p]) = []"
  using assms(1,2) validate_signpost_content_name[OF assms(3,4), of root]
  by (simp add: validate_directory_cases signpost_filename_is_signpost_name)

lemma renamed_walk:
  "os_walk not_excluded [] renamed_tree =
     [([], [''src''], [''_CARDINAL_ROOT.txt'']), ([''src''], [], [''_CARDINAL_OLD_NAME.txt''])]"
  by (simp add: renamed_tree_def not_excluded_def dirnames_of_def filenames_of_def startswith_def)

lemma renamed_filter: "filter is_signpost_name [''_CARDINAL_OLD_NAME.txt''] = [''_CARDINAL_OLD_NAME.txt'']"
  by (simp add: is_signpost_name_def startswith_def endswith_def)

lemmas validate_content_defs =
  validate_signpost_content_def read_text_def str_split_def field_value_def strip_def
  rstrip_def isspace_def Let_def

lemma renamed_valid: "validate_signposts [''r''] renamed_tree"
proof -
  have "snd (validate_signpost_content [''r''] renamed_tree [''_CARDINAL_ROOT.txt'']) = []"
    by (simp add: validate_content_defs renamed_tree_def text_defs)
  moreover have "validate_directory [''r''] renamed_tree
                   ([''src''], [], [''_CARDINAL_OLD_NAME.txt'']) = []"
    using renamed_filter
    by (simp add: validate_directory_cases validate_content_defs renamed_tree_def text_defs)
  moreover have "exists [''_CARDINAL_ROOT.txt''] renamed_tree"
    by (simp add: exists_def renamed_tree_def)
  ultimately show ?thesis
    by (simp add: validate_signposts_iff validate_issues_concat renamed_walk
          validate_directory_cases)
qed

text \<open>
  The project in which \<^verbatim>\<open>src\<close> holds its signpost under the name
  \<^verbatim>\<open>_CARDINAL_OLD_NAME.txt\<close> is valid.
\<close>

theorem signpost_name_not_checked_witness:
  "[''src''] \<noteq> [] \<and>
   filter is_signpost_name [''_CARDINAL_OLD_NAME.txt''] = [''_CARDINAL_OLD_NAME.txt''] \<and>
   lookup ([''src''] @ [''_CARDINAL_OLD_NAME.txt'']) renamed_tree
     = Some (File ''ROOT: /r/\<newline>HERE: /r/src/\<newline>ROLE: Source code'') \<and>
   lookup ([''src''] @ [signpost_filename [''src'']]) scenario_result
     = Some (File ''ROOT: /r/\<newline>HERE: /r/src/\<newline>ROLE: Source code'') \<and>
   (validate_directory [''r''] renamed_tree ([''src''], [], [''_CARDINAL_OLD_NAME.txt'']) = [] \<longleftrightarrow>
    validate_directory [''r''] scenario_result ([''src''], [''models''], [signpost_filename [''src'']]) = []) \<and>
   validate_signposts [''r''] renamed_tree"
proof -
  have a: "[''src''] \<noteq> ([]::path)" by simp
  have c: "lookup ([''src''] @ [''_CARDINAL_OLD_NAME.txt'']) renamed_tree
     = Some (File ''ROOT: /r/\<newline>HERE: /r/src/\<newline>ROLE: Source code'')"
    by (simp add: renamed_tree_def)
  have d: "lookup ([''src''] @ [signpost_filename [''src'']]) scenario_result
     = Some (File ''ROOT: /r/\<newline>HERE: /r/src/\<newline>ROLE: Source code'')"
    by (simp add: scenario_result_def scenario_names)
  show ?thesis
    using a renamed_filter c d renamed_valid
      signpost_name_not_checked[OF a renamed_filter c d, of "[''r'']" "[]" "[''models'']"]
    by (intro conjI)
qed

subsection \<open>Splitting, joining and stripping\<close>

lemma startswith_append: "startswith (p @ s) p"
  by (simp add: startswith_def)

lemma startswith_Nil: "startswith s []"
  by (simp add: startswith_def)

lemma startswith_Cons: "startswith (c # cs) (d # ds) \<longleftrightarrow> c = d \<and> startswith cs ds"
  by (auto simp: startswith_def)

lemma str_in_prefix: "str_in sub (sub @ b)"
proof (cases "sub @ b")
  case Nil
  then show ?thesis by simp
next
  case (Cons c cs)
  have "startswith (c # cs) sub"
    using startswith_append[of sub b] Cons by simp
  then show ?thesis using Cons by simp
qed

lemma str_in_append: "str_in sub (a @ sub @ b)"
  by (induction a) (simp_all add: str_in_prefix)

lemma universal_newlines_id: "CHR 0x0D \<notin> set s \<Longrightarrow> universal_newlines s = s"
  by (induction s rule: universal_newlines.induct) auto

lemma set_join: "set (join sep xs) \<subseteq> set sep \<union> \<Union> (set ` set xs)"
  by (induction sep xs rule: join.induct) auto

lemma split_acc_none:
  "sep \<noteq> [] \<Longrightarrow> \<not> str_in sep s \<Longrightarrow> split_acc sep acc s = [rev acc @ s]"
  by (induction s arbitrary: acc) auto

lemma split_acc_char_none:
  "c \<notin> set s \<Longrightarrow> split_acc [c] acc s = [rev acc @ s]"
  by (induction s arbitrary: acc) (auto simp: startswith_Cons startswith_Nil)

lemma split_acc_char_line:
  "c \<notin> set l \<Longrightarrow> split_acc [c] acc (l @ c # rest) = (rev acc @ l) # split_acc [c] [] rest"
  by (induction l arbitrary: acc) (auto simp: startswith_Cons startswith_Nil)

lemma split_join_lines:
  "\<forall>l\<in>set (l0 # ls). c \<notin> set l \<Longrightarrow> str_split (join [c] (l0 # ls)) [c] = l0 # ls"
  unfolding str_split_def
proof (induction ls arbitrary: l0)
  case Nil
  then show ?case by (simp add: split_acc_char_none)
next
  case (Cons l ls)
  then show ?case by (simp add: split_acc_char_line)
qed

lemma join_contains:
  "l \<in> set ls \<Longrightarrow> \<exists>a b. join sep ls = a @ l @ b"
proof (induction sep ls rule: join.induct)
  case (2 sep x)
  then have "join sep [x] = [] @ l @ []" by simp
  then show ?case by blast
next
  case (3 sep x y ys)
  show ?case
  proof (cases "l = x")
    case True
    then have "join sep (x # y # ys) = [] @ l @ (sep @ join sep (y # ys))" by simp
    then show ?thesis by blast
  next
    case False
    with 3 obtain a b where "join sep (y # ys) = a @ l @ b" by auto
    then have "join sep (x # y # ys) = (x @ sep @ a) @ l @ b" by simp
    then show ?thesis by blast
  qed
qed simp

lemma str_in_join:
  assumes "l \<in> set ls" and "startswith l label"
  shows "str_in label (join sep ls)"
proof -
  from assms(2) obtain v where l: "l = label @ v"
    by (metis append_take_drop_id startswith_def)
  from join_contains[OF assms(1)] obtain a b where "join sep ls = a @ l @ b" by blast
  then have "join sep ls = a @ label @ (v @ b)" using l by simp
  then show ?thesis by (simp only: str_in_append)
qed

lemma field_value_line:
  assumes "label \<noteq> []" and "\<not> str_in label v"
  shows "field_value (label @ v) label = rstrip (strip v) ''/''"
proof -
  from assms(1) obtain c cs where label: "label = c # cs" by (cases label) auto
  have "str_split (label @ v) label = [[], v]"
    unfolding str_split_def label
    using split_acc_none[OF assms(1,2), of "[]"] startswith_append[of "c # cs" v]
    by (simp add: label)
  then show ?thesis by (simp add: field_value_def)
qed

lemma rstrip_eq_iff:
  "rstrip s [c] = e \<longleftrightarrow> (\<exists>k. s = e @ replicate k c) \<and> (e = [] \<or> last e \<noteq> c)"
proof
  assume r: "rstrip s [c] = e"
  define t where "t = rev s"
  define k where "k = length (takeWhile (\<lambda>x. x = c) t)"
  have e: "e = rev (dropWhile (\<lambda>x. x = c) t)"
    using r by (simp add: rstrip_def t_def)
  have tw: "takeWhile (\<lambda>x. x = c) t = replicate k c"
    unfolding k_def by (rule replicate_length_same[symmetric]) (auto dest: set_takeWhileD)
  have "s = rev (takeWhile (\<lambda>x. x = c) t @ dropWhile (\<lambda>x. x = c) t)"
    by (simp add: t_def)
  also have "\<dots> = e @ replicate k c"
    by (simp add: tw e)
  finally have 1: "\<exists>k. s = e @ replicate k c" by blast
  have 2: "e = [] \<or> last e \<noteq> c"
  proof (cases "dropWhile (\<lambda>x. x = c) t = []")
    case True
    then show ?thesis by (simp add: e)
  next
    case False
    then have "hd (dropWhile (\<lambda>x. x = c) t) \<noteq> c" by (rule hd_dropWhile)
    then show ?thesis using False by (simp add: e last_rev)
  qed
  from 1 2 show "(\<exists>k. s = e @ replicate k c) \<and> (e = [] \<or> last e \<noteq> c)" by (rule conjI)
next
  assume "(\<exists>k. s = e @ replicate k c) \<and> (e = [] \<or> last e \<noteq> c)"
  then obtain k where s: "s = e @ replicate k c" and e: "e = [] \<or> last e \<noteq> c" by blast
  have "dropWhile (\<lambda>x. x = c) (replicate k c @ rev e) = dropWhile (\<lambda>x. x = c) (rev e)"
    by (rule dropWhile_append2) simp
  also have "\<dots> = rev e"
  proof (cases "e = []")
    case True
    then show ?thesis by simp
  next
    case False
    with e have "hd (rev e) \<noteq> c" by (simp add: hd_rev)
    then show ?thesis by (simp add: dropWhile_eq_self_iff)
  qed
  finally show "rstrip s [c] = e"
    by (simp add: rstrip_def s)
qed

lemma path_str_last:
  assumes "p \<noteq> []" and "\<forall>n\<in>set p. n \<noteq> [] \<and> last n \<noteq> CHR ''/''"
  shows "path_str p \<noteq> [] \<and> last (path_str p) \<noteq> CHR ''/''"
proof -
  from assms(1) obtain q n where p: "p = q @ [n]" by (metis rev_exhaust)
  with assms(2) have n: "n \<noteq> []" "last n \<noteq> CHR ''/''" by auto
  show ?thesis using n by (simp add: path_str_def p)
qed

subsection \<open>The check of the paths in a signpost\<close>

lemma find_SomeD: "find P xs = Some x \<Longrightarrow> x \<in> set xs \<and> P x"
  by (induction xs) (auto split: if_splits)

text \<open>
  C6, as stated, fails: a root signpost whose \<^verbatim>\<open>ROOT\<close> value is \<^verbatim>\<open>/r///\<close> after three blanks and
  whose \<^verbatim>\<open>HERE\<close> value is \<^verbatim>\<open>/r//\<close> before two blanks passes the check for the root \<^verbatim>\<open>/r\<close>.
\<close>

theorem trailing_slashes_counterexample:
  "validate_signpost_content [''r''] slashes_tree [''_CARDINAL_ROOT.txt''] = (True, [])"
  by (simp add: validate_content_defs slashes_tree_def text_defs)

text \<open>
  C6, amended. Take a signpost whose text is a list of lines, the first line that starts
  with \<^verbatim>\<open>ROOT:\<close> going on with \<open>v1\<close> and the first that starts with \<^verbatim>\<open>HERE:\<close> with \<open>v2\<close>,
  neither value holding its own label again, and which has \<^verbatim>\<open>ROLE:\<close> somewhere. For a
  project root other than the root of the filesystem, the check accepts it exactly when
  \<open>v1\<close>, once the white space around it is removed, is the expected root path followed by
  any number of slashes, and \<open>v2\<close> likewise is the path of the directory of the signpost
  followed by any number of slashes.
\<close>

theorem signpost_paths_accepted:
  assumes content: "lookup sp fs = Some (File (join [CHR 0x0A] lines))"
    and nolf: "\<forall>l\<in>set lines. CHR 0x0A \<notin> set l \<and> CHR 0x0D \<notin> set l"
    and root_line: "find (\<lambda>l. startswith l ''ROOT:'') lines = Some (''ROOT:'' @ v1)"
    and v1: "\<not> str_in ''ROOT:'' v1"
    and here_line: "find (\<lambda>l. startswith l ''HERE:'') lines = Some (''HERE:'' @ v2)"
    and v2: "\<not> str_in ''HERE:'' v2"
    and role: "str_in ''ROLE:'' (join [CHR 0x0A] lines)"
    and root: "root \<noteq> []"
    and names: "\<forall>n\<in>set (root @ butlast sp). n \<noteq> [] \<and> last n \<noteq> CHR ''/''"
  shows "fst (validate_signpost_content root fs sp) \<longleftrightarrow>
           (\<exists>k. strip v1 = path_str root @ replicate k CHR ''/'') \<and>
           (\<exists>k. strip v2 = path_str (root @ butlast sp) @ replicate k CHR ''/'')"
proof -
  let ?content = "join [CHR 0x0A] lines"
  from root_line obtain l0 ls where ls: "lines = l0 # ls"
    by (cases lines) auto
  have "CHR 0x0D \<notin> set ?content"
    using set_join[of "[CHR 0x0A]" lines] nolf by auto
  then have read: "read_text sp fs = Inr ?content"
    using content by (simp add: read_text_def universal_newlines_id)
  have the_lines: "str_split ?content [CHR 0x0A] = lines"
    using nolf unfolding ls by (intro split_join_lines) simp
  have in_root: "str_in ''ROOT:'' ?content"
    using find_SomeD[OF root_line] by (intro str_in_join[of "''ROOT:'' @ v1"]) auto
  have in_here: "str_in ''HERE:'' ?content"
    using find_SomeD[OF here_line] by (intro str_in_join[of "''HERE:'' @ v2"]) auto
  have rv: "field_value (''ROOT:'' @ v1) ''ROOT:'' = rstrip (strip v1) ''/''"
    using v1 by (intro field_value_line) simp_all
  have hv: "field_value (''HERE:'' @ v2) ''HERE:'' = rstrip (strip v2) ''/''"
    using v2 by (intro field_value_line) simp_all
  have accept: "fst (validate_signpost_content root fs sp) \<longleftrightarrow>
      rstrip (strip v1) ''/'' = path_str root \<and>
      rstrip (strip v2) ''/'' = path_str (root @ butlast sp)"
    using in_root in_here role
    by (simp add: validate_signpost_content_def read Let_def the_lines root_line here_line
          rv hv del: append.simps)
  have e1: "path_str root \<noteq> [] \<and> last (path_str root) \<noteq> CHR ''/''"
    using root names by (intro path_str_last) auto
  have e2: "path_str (root @ butlast sp) \<noteq> [] \<and> last (path_str (root @ butlast sp)) \<noteq> CHR ''/''"
    using root names by (intro path_str_last) auto
  show ?thesis
    unfolding accept using e1 e2 by (simp add: rstrip_eq_iff)
qed

theorem signpost_paths_accepted_witness:
  "lookup [''_CARDINAL_ROOT.txt''] slashes_tree
     = Some (File (join [CHR 0x0A]
         [''ROOT:   /r///'', ''HERE: /r//  '', ''ROLE: Project root directory''])) \<and>
   (fst (validate_signpost_content [''r''] slashes_tree [''_CARDINAL_ROOT.txt'']) \<longleftrightarrow>
      (\<exists>k. strip ''   /r///'' = path_str [''r''] @ replicate k CHR ''/'') \<and>
      (\<exists>k. strip '' /r//  ''
             = path_str ([''r''] @ butlast [''_CARDINAL_ROOT.txt'']) @ replicate k CHR ''/'')) \<and>
   strip ''   /r///'' = path_str [''r''] @ replicate 3 CHR ''/''"
proof -
  let ?lines = "[''ROOT:   /r///'', ''HERE: /r//  '', ''ROLE: Project root directory'']"
  have 1: "lookup [''_CARDINAL_ROOT.txt''] slashes_tree = Some (File (join [CHR 0x0A] ?lines))"
    by (simp add: slashes_tree_def)
  have 2: "\<forall>l\<in>set ?lines. CHR 0x0A \<notin> set l \<and> CHR 0x0D \<notin> set l"
    by simp
  have 3: "find (\<lambda>l. startswith l ''ROOT:'') ?lines = Some (''ROOT:'' @ ''   /r///'')"
    by (simp add: startswith_def)
  have 4: "\<not> str_in ''ROOT:'' ''   /r///''"
    by (simp add: startswith_def)
  have 5: "find (\<lambda>l. startswith l ''HERE:'') ?lines = Some (''HERE:'' @ '' /r//  '')"
    by (simp add: startswith_def)
  have 6: "\<not> str_in ''HERE:'' '' /r//  ''"
    by (simp add: startswith_def)
  have 7: "str_in ''ROLE:'' (join [CHR 0x0A] ?lines)"
    by (simp add: startswith_def)
  have 8: "[''r''] \<noteq> ([]::path)"
    by simp
  have 9: "\<forall>n\<in>set ([''r''] @ butlast [''_CARDINAL_ROOT.txt'']). n \<noteq> [] \<and> last n \<noteq> CHR ''/''"
    by simp
  have 10: "strip ''   /r///'' = path_str [''r''] @ replicate 3 CHR ''/''"
    by (simp add: strip_def isspace_def path_str_def numeral_3_eq_3)
  show ?thesis
    using 1 signpost_paths_accepted[OF 1 2 3 4 5 6 7 8 9] 10 by (intro conjI)
qed

subsection \<open>Excluded directories\<close>

lemma not_excluded_signpost_filename: "not_excluded (signpost_filename p)"
  by (simp add: not_excluded_def signpost_filename_def startswith_def)

lemma not_excluded_root_signpost: "not_excluded ''_CARDINAL_ROOT.txt''"
  by (simp add: not_excluded_def startswith_def)

lemma take_excluded:
  assumes "\<forall>c\<in>set x. not_excluded c" and "\<exists>c\<in>set b. \<not> not_excluded c"
  shows "take (length b) x \<noteq> b"
proof
  assume "take (length b) x = b"
  then have "set b \<subseteq> set x" by (metis set_take_subset)
  with assms show False by blast
qed

lemma signpost_dirs_walk:
  "p \<in> set (signpost_dirs md (os_walk keep [] fs)) \<Longrightarrow> \<forall>c\<in>set p. keep c"
  by (auto simp: signpost_dirs_def dest!: os_walk_paths_kept)

text \<open>
  C8, as stated, fails: \<^verbatim>\<open>remove\<close> walks the whole tree without pruning it, so it enters a
  directory named \<^verbatim>\<open>.git\<close> and deletes the file named as a signpost that it finds there.
\<close>

theorem remove_visits_excluded_counterexample:
  "remove scenario_generator hidden_signpost_tree = Inr (1, Dir [(''.git'', Dir [])])"
  by (simp add: remove_def hidden_signpost_tree_def dirnames_of_def filenames_of_def
        is_signpost_name_def startswith_def endswith_def AList.delete_eq)

text \<open>
  C8, amended. A directory below the root whose name begins with a dot or is one of
  \<^verbatim>\<open>node_modules\<close>, \<^verbatim>\<open>__pycache__\<close>, \<^verbatim>\<open>venv\<close>, \<^verbatim>\<open>env\<close>, \<^verbatim>\<open>.git\<close> is not reached by the walk of
  \<^verbatim>\<open>create_signposts\<close> nor by that of \<^verbatim>\<open>validate_signposts\<close>, and neither is anything below
  it: every directory these walks reach has a path with no such name in it. Hence every
  signpost \<^verbatim>\<open>create_signposts\<close> writes lies in a directory with no such name in its path,
  everything at a path with such a name in it is after the run what it was before, and
  every issue of a validation comes from the root signpost or from a directory with no
  such name in its path. (The walk of \<^verbatim>\<open>remove\<close> does not prune.)
\<close>

theorem excluded_directories_skipped:
  "(\<forall>item\<in>set (os_walk not_excluded [] fs). \<forall>c\<in>set (fst item). not_excluded c) \<and>
   (create_signposts g max_depth fs = Inr (created, fs') \<longrightarrow>
      (\<forall>sp\<in>set created. \<exists>p f. sp = root_path g @ p @ [f] \<and> (\<forall>c\<in>set p. not_excluded c)) \<and>
      (\<forall>b. (\<exists>c\<in>set b. \<not> not_excluded c) \<longrightarrow> lookup b fs' = lookup b fs)) \<and>
   (\<forall>i\<in>set (validate_issues root fs).
      i = MissingRootSignpost (root @ [''_CARDINAL_ROOT.txt'']) \<or>
      i \<in> set (snd (validate_signpost_content root fs [''_CARDINAL_ROOT.txt''])) \<or>
      (\<exists>item\<in>set (os_walk not_excluded [] fs).
         (\<forall>c\<in>set (fst item). not_excluded c) \<and> i \<in> set (validate_directory root fs item)))"
proof (intro conjI impI)
  show walk: "\<forall>item\<in>set (os_walk not_excluded [] fs). \<forall>c\<in>set (fst item). not_excluded c"
    by (auto dest!: os_walk_paths_kept)
  show "\<forall>i\<in>set (validate_issues root fs).
      i = MissingRootSignpost (root @ [''_CARDINAL_ROOT.txt'']) \<or>
      i \<in> set (snd (validate_signpost_content root fs [''_CARDINAL_ROOT.txt''])) \<or>
      (\<exists>item\<in>set (os_walk not_excluded [] fs).
         (\<forall>c\<in>set (fst item). not_excluded c) \<and> i \<in> set (validate_directory root fs item))"
    using walk by (auto simp: validate_issues_concat split: if_splits)
next
  assume c: "create_signposts g max_depth fs = Inr (created, fs')"
  then obtain c0 fs1 where
    w: "write_text [''_CARDINAL_ROOT.txt''] c0 fs = Inr fs1" and
    l: "create_loop g max_depth (os_walk not_excluded [] fs1) [root_path g @ [''_CARDINAL_ROOT.txt'']] fs1
         = Inr (created, fs')"
    by (rule create_signposts_Inr)
  let ?dirs = "signpost_dirs max_depth (os_walk not_excluded [] fs1)"
  have dirs: "\<forall>p\<in>set ?dirs. \<forall>c\<in>set p. not_excluded c"
    using signpost_dirs_walk by blast
  have created: "created = (root_path g @ [] @ [''_CARDINAL_ROOT.txt''])
                   # map (\<lambda>p. root_path g @ p @ [signpost_filename p]) ?dirs"
    using create_loop_created[OF l] by simp
  show "\<forall>sp\<in>set created. \<exists>p f. sp = root_path g @ p @ [f] \<and> (\<forall>c\<in>set p. not_excluded c)"
  proof
    fix sp assume "sp \<in> set created"
    then consider "sp = root_path g @ [] @ [''_CARDINAL_ROOT.txt'']"
      | p where "p \<in> set ?dirs" "sp = root_path g @ p @ [signpost_filename p]"
      unfolding created by auto
    then show "\<exists>p f. sp = root_path g @ p @ [f] \<and> (\<forall>c\<in>set p. not_excluded c)"
    proof cases
      case 1
      then show ?thesis by (intro exI[of _ "[]"] exI[of _ "''_CARDINAL_ROOT.txt''"]) simp
    next
      case 2
      then show ?thesis using dirs by blast
    qed
  qed
  show "\<forall>b. (\<exists>c\<in>set b. \<not> not_excluded c) \<longrightarrow> lookup b fs' = lookup b fs"
  proof (intro allI impI)
    fix b assume b: "\<exists>c\<in>set b. \<not> not_excluded c"
    have "\<forall>p\<in>set ?dirs. take (length b) (p @ [signpost_filename p]) \<noteq> b"
    proof
      fix p assume "p \<in> set ?dirs"
      then have "\<forall>c\<in>set (p @ [signpost_filename p]). not_excluded c"
        using dirs not_excluded_signpost_filename by auto
      then show "take (length b) (p @ [signpost_filename p]) \<noteq> b"
        using b by (rule take_excluded)
    qed
    then have "lookup b fs' = lookup b fs1"
      by (rule create_loop_frame[OF l])
    moreover have "take (length b) [''_CARDINAL_ROOT.txt''] \<noteq> b"
      using b by (intro take_excluded) (simp_all add: not_excluded_root_signpost)
    then have "lookup b fs1 = lookup b fs"
      by (rule write_text_frame[OF w])
    ultimately show "lookup b fs' = lookup b fs" by simp
  qed
qed

lemma excluded_create:
  "create_signposts scenario_generator 10 excluded_tree =
     Inr ([[''r'', ''_CARDINAL_ROOT.txt''], [''r'', ''src'', ''_CARDINAL_SRC.txt'']],
          excluded_result)"
proof -
  have g: "generate_root_content scenario_generator excluded_tree
           = Inr (join [CHR 0x0A] (root_lines scenario_generator))"
    by (simp add: generate_root_content_def scenario_generator_def)
  have r: "root_path scenario_generator = [''r'']" by (simp add: scenario_generator_def)
  show ?thesis
    unfolding create_signposts_def create_root_signpost_def g Let_def
    by (simp add: excluded_tree_def not_excluded_def dirnames_of_def filenames_of_def
        startswith_def create_loop_Cons scenario_names scenario_contents r excluded_result_def
        del: create_loop.simps(2))
qed

text \<open>
  In a project with \<^verbatim>\<open>.git/hooks\<close>, \<^verbatim>\<open>node_modules/pkg\<close> and \<^verbatim>\<open>src\<close> the run writes the root
  signpost and that of \<^verbatim>\<open>src\<close>, and \<^verbatim>\<open>.git/hooks\<close> and \<^verbatim>\<open>node_modules/pkg\<close> are after it the
  empty directories they were.
\<close>

theorem excluded_directories_skipped_witness:
  "create_signposts scenario_generator 10 excluded_tree =
     Inr ([[''r'', ''_CARDINAL_ROOT.txt''], [''r'', ''src'', ''_CARDINAL_SRC.txt'']],
          excluded_result) \<and>
   \<not> not_excluded ''.git'' \<and> \<not> not_excluded ''node_modules'' \<and>
   lookup [''.git'', ''hooks''] excluded_result = lookup [''.git'', ''hooks''] excluded_tree \<and>
   lookup [''node_modules'', ''pkg''] excluded_result
     = lookup [''node_modules'', ''pkg''] excluded_tree \<and>
   ([''src''], [], []) \<in> set (os_walk not_excluded [] excluded_tree) \<and>
   not_excluded ''src''"
proof -
  note t = excluded_directories_skipped[of excluded_tree scenario_generator 10
      "[[''r'', ''_CARDINAL_ROOT.txt''], [''r'', ''src'', ''_CARDINAL_SRC.txt'']]"
      excluded_result "[''r'']"]
  have a: "\<not> not_excluded ''.git''" by (simp add: not_excluded_def startswith_def)
  have b: "\<not> not_excluded ''node_modules''" by (simp add: not_excluded_def)
  from t excluded_create
  have f: "\<forall>b. (\<exists>c\<in>set b. \<not> not_excluded c) \<longrightarrow>
              lookup b excluded_result = lookup b excluded_tree"
    by blast
  have 1: "lookup [''.git'', ''hooks''] excluded_result = lookup [''.git'', ''hooks''] excluded_tree"
    using f a by (intro f[rule_format]) (rule bexI[of _ "''.git''"], simp_all)
  have 2: "lookup [''node_modules'', ''pkg''] excluded_result
           = lookup [''node_modules'', ''pkg''] excluded_tree"
    using f b by (intro f[rule_format]) (rule bexI[of _ "''node_modules''"], simp_all)
  from t have 3: "\<forall>item\<in>set (os_walk not_excluded [] excluded_tree).
                    \<forall>c\<in>set (fst item). not_excluded c"
    by blast
  have 4: "([''src''], [], []) \<in> set (os_walk not_excluded [] excluded_tree)"
    by (simp add: excluded_tree_def not_excluded_def dirnames_of_def filenames_of_def
          startswith_def)
  from 3 4 have 5: "not_excluded ''src''"
    by fastforce
  show ?thesis
    using excluded_create a b 1 2 4 5 by (intro conjI)
qed

subsection \<open>The loop of \<^verbatim>\<open>remove\<close>\<close>

lemma os_walk_Cons_path:
  "os_walk keep (x # q) t = map (\<lambda>(r, d, f). (x # r, d, f)) (os_walk keep q t)"
proof (induction keep q t rule: os_walk.induct)
  case (2 keep p es)
  let ?sub = "filter (\<lambda>e. is_dir (snd e) \<and> keep (fst e)) es"
  have "\<And>e. e \<in> set ?sub \<Longrightarrow>
          os_walk keep ((x # p) @ [fst e]) (snd e)
          = map (\<lambda>(r, d, f). (x # r, d, f)) (os_walk keep (p @ [fst e]) (snd e))"
    using 2 by simp
  then have "concat (map (\<lambda>e. os_walk keep ((x # p) @ [fst e]) (snd e)) ?sub)
        = concat (map (\<lambda>e. map (\<lambda>(r, d, f). (x # r, d, f)) (os_walk keep (p @ [fst e]) (snd e))) ?sub)"
    by (intro arg_cong[where f = concat] map_cong refl)
  also have "\<dots> = map (\<lambda>(r, d, f). (x # r, d, f))
                     (concat (map (\<lambda>e. os_walk keep (p @ [fst e]) (snd e)) ?sub))"
    by (simp add: map_concat comp_def)
  finally show ?case by simp
qed simp

lemma remove_files_child:
  "map_of es x = Some n \<Longrightarrow>
   remove_files (x # q) files k (Dir es) =
     (case remove_files q files k n of
        Inl e \<Rightarrow> Inl e
      | Inr (k', n') \<Rightarrow> Inr (k', Dir (AList.update x n' es)))"
proof (induction files arbitrary: k n es)
  case Nil
  then show ?case by (simp add: AList.update_triv)
next
  case (Cons f files)
  show ?case
  proof (cases "is_signpost_name f")
    case False
    then show ?thesis using Cons by simp
  next
    case True
    show ?thesis
    proof (cases "unlink (q @ [f]) n")
      case (Inl e)
      then show ?thesis using True Cons.prems by simp
    next
      case (Inr n1)
      have "map_of (AList.update x n1 es) x = Some n1" by (simp add: AList.update_conv')
      from Cons.IH[OF this] show ?thesis
        using True Cons.prems Inr by (simp split: sum.splits)
    qed
  qed
qed

lemma remove_loop_child:
  "map_of es x = Some n \<Longrightarrow>
   remove_loop (map (\<lambda>(r, d, f). (x # r, d, f)) items) k (Dir es) =
     (case remove_loop items k n of
        Inl e \<Rightarrow> Inl e
      | Inr (k', n') \<Rightarrow> Inr (k', Dir (AList.update x n' es)))"
proof (induction items arbitrary: k n es)
  case Nil
  then show ?case by (simp add: AList.update_triv)
next
  case (Cons item items)
  obtain r d f where item: "item = (r, d, f)" by (cases item)
  show ?case
  proof (cases "remove_files r f k n")
    case (Inl e)
    then show ?thesis using Cons.prems item by (simp add: remove_files_child)
  next
    case (Inr res)
    obtain k1 n1 where res: "res = (k1, n1)" by (cases res)
    have "map_of (AList.update x n1 es) x = Some n1" by (simp add: AList.update_conv')
    from Cons.IH[OF this] show ?thesis
      using Cons.prems item Inr res by (simp add: remove_files_child split: sum.splits)
  qed
qed

lemma remove_loop_append:
  "remove_loop (xs @ ys) k fs =
     (case remove_loop xs k fs of
        Inl e \<Rightarrow> Inl e
      | Inr (k', fs') \<Rightarrow> remove_loop ys k' fs')"
proof (induction xs arbitrary: k fs)
  case (Cons item xs)
  then show ?case by (cases item) (simp split: sum.splits)
qed simp

lemma map_of_file_entry:
  "distinct (map fst es) \<Longrightarrow> f \<in> set (filenames_of es) \<Longrightarrow> \<exists>c. map_of es f = Some (File c)"
proof -
  assume d: "distinct (map fst es)" and f: "f \<in> set (filenames_of es)"
  then obtain n where n: "(f, n) \<in> set es" "\<not> is_dir n"
    by (auto simp: filenames_of_def)
  then have "map_of es f = Some n" using d by simp
  with n(2) show ?thesis by (cases n) auto
qed

lemma filenames_of_delete:
  "filenames_of (AList.delete f es) = removeAll f (filenames_of es)"
  by (induction es) (auto simp: filenames_of_def)

lemma remove_files_here:
  "distinct (map fst es) \<Longrightarrow> distinct fl \<Longrightarrow> set fl \<subseteq> set (filenames_of es) \<Longrightarrow>
   remove_files [] fl k (Dir es) =
     Inr (k + length (filter is_signpost_name fl),
          Dir (filter (\<lambda>e. \<not> (fst e \<in> set fl \<and> is_signpost_name (fst e))) es))"
proof (induction fl arbitrary: k es)
  case Nil
  then show ?case by simp
next
  case (Cons f fl)
  show ?case
  proof (cases "is_signpost_name f")
    case False
    have "filter (\<lambda>e. \<not> (fst e \<in> set (f # fl) \<and> is_signpost_name (fst e))) es
          = filter (\<lambda>e. \<not> (fst e \<in> set fl \<and> is_signpost_name (fst e))) es"
      using False by (intro filter_cong) auto
    then show ?thesis using False Cons by simp
  next
    case True
    from Cons.prems obtain c where c: "map_of es f = Some (File c)"
      using map_of_file_entry[of es f] by auto
    have u: "unlink ([] @ [f]) (Dir es) = Inr (Dir (AList.delete f es))"
      using c by simp
    have d: "distinct (map fst (AList.delete f es))"
      using Cons.prems(1) by (rule AList.distinct_delete)
    have s: "set fl \<subseteq> set (filenames_of (AList.delete f es))"
      using Cons.prems(2,3) by (auto simp: filenames_of_delete)
    have "filter (\<lambda>e. \<not> (fst e \<in> set fl \<and> is_signpost_name (fst e))) (AList.delete f es)
          = filter (\<lambda>e. \<not> (fst e \<in> set (f # fl) \<and> is_signpost_name (fst e))) es"
      using True by (auto simp: AList.delete_eq intro: filter_cong)
    then show ?thesis
      using True u Cons.IH[OF d _ s, of "k + 1"] Cons.prems(2) by simp
  qed
qed

lemma update_middle:
  "x \<notin> fst ` set done \<Longrightarrow> AList.update x v (done @ (x, n) # rest) = done @ (x, v) # rest"
  by (induction "done") auto

lemma map_of_middle:
  "x \<notin> fst ` set done \<Longrightarrow> map_of (done @ (x, n) # rest) x = Some n"
  by (induction "done") auto

lemma os_walk_File: "\<not> is_dir n \<Longrightarrow> os_walk keep p n = []"
  by (cases n) auto

lemma strip_signposts_File: "\<not> is_dir n \<Longrightarrow> strip_signposts n = n"
  by (cases n) auto

lemma count_signposts_File: "\<not> is_dir n \<Longrightarrow> count_signposts n = 0"
  by (cases n) auto

lemma remove_loop_entries:
  assumes "\<And>e k. e \<in> set ds \<Longrightarrow> is_dir (snd e) \<Longrightarrow>
             remove_loop (os_walk (\<lambda>d. True) [] (snd e)) k (snd e)
             = Inr (k + count_signposts (snd e), strip_signposts (snd e))"
    and "distinct (map fst (done @ ds))"
  shows "remove_loop (concat (map (\<lambda>e. os_walk (\<lambda>d. True) [fst e] (snd e)) ds)) k (Dir (done @ ds))
         = Inr (k + sum_list (map (\<lambda>e. count_signposts (snd e)) ds),
                Dir (done @ map (\<lambda>e. (fst e, strip_signposts (snd e))) ds))"
  using assms
proof (induction ds arbitrary: "done" k)
  case Nil
  then show ?case by simp
next
  case (Cons e ds)
  obtain x n where e: "e = (x, n)" by (cases e)
  have dist: "distinct (map fst ((done @ [(x, strip_signposts n)]) @ ds))"
    using Cons.prems(2) e by simp
  have ih: "\<And>k. remove_loop (concat (map (\<lambda>e. os_walk (\<lambda>d. True) [fst e] (snd e)) ds)) k
               (Dir ((done @ [(x, strip_signposts n)]) @ ds))
         = Inr (k + sum_list (map (\<lambda>e. count_signposts (snd e)) ds),
                Dir ((done @ [(x, strip_signposts n)]) @ map (\<lambda>e. (fst e, strip_signposts (snd e))) ds))"
    using Cons.IH[OF _ dist] Cons.prems(1) by simp
  show ?case
  proof (cases "is_dir n")
    case False
    then show ?thesis
      using ih e by (simp add: os_walk_File strip_signposts_File count_signposts_File)
  next
    case True
    have x: "x \<notin> fst ` set done" using Cons.prems(2) e by auto
    have m: "map_of (done @ (x, n) # ds) x = Some n" using x by (rule map_of_middle)
    have sub: "remove_loop (os_walk (\<lambda>d. True) [] n) k n
               = Inr (k + count_signposts n, strip_signposts n)"
      using Cons.prems(1)[of e k] True e by simp
    have "remove_loop (os_walk (\<lambda>d. True) [x] n) k (Dir (done @ (x, n) # ds))
          = Inr (k + count_signposts n, Dir (done @ (x, strip_signposts n) # ds))"
      using remove_loop_child[OF m, of "os_walk (\<lambda>d. True) [] n" k] sub
      by (simp add: os_walk_Cons_path[of _ x "[]"] update_middle[OF x])
    then show ?thesis
      using ih[of "k + count_signposts n"] e
      by (simp add: remove_loop_append add.assoc)
  qed
qed

lemma filter_dirs_kept:
  "filter (\<lambda>e. is_dir (snd e)) (filter (\<lambda>e. is_dir (snd e) \<or> \<not> is_signpost_name (fst e)) es)
   = filter (\<lambda>e. is_dir (snd e)) es"
  by (induction es) auto

lemma concat_walk_dirs:
  "concat (map (\<lambda>e. os_walk keep [fst e] (snd e)) (filter (\<lambda>e. is_dir (snd e)) es))
   = concat (map (\<lambda>e. os_walk keep [fst e] (snd e)) es)"
  by (induction es) (auto simp: os_walk_File)

lemma sum_count_kept:
  "sum_list (map (\<lambda>e. count_signposts (snd e))
               (filter (\<lambda>e. is_dir (snd e) \<or> \<not> is_signpost_name (fst e)) es))
   = sum_list (map (\<lambda>e. count_signposts (snd e)) es)"
  by (induction es) (auto simp: count_signposts_File)

lemma filenames_of_distinct: "distinct (map fst es) \<Longrightarrow> distinct (filenames_of es)"
  unfolding filenames_of_def by (induction es) auto

lemma filter_here:
  assumes "distinct (map fst es)"
  shows "filter (\<lambda>e. \<not> (fst e \<in> set (filenames_of es) \<and> is_signpost_name (fst e))) es
         = filter (\<lambda>e. is_dir (snd e) \<or> \<not> is_signpost_name (fst e)) es"
proof (rule filter_cong[OF refl])
  fix e assume e: "e \<in> set es"
  have "fst e \<in> set (filenames_of es) \<longleftrightarrow> \<not> is_dir (snd e)"
  proof
    assume "fst e \<in> set (filenames_of es)"
    then obtain e' where e': "e' \<in> set es" "\<not> is_dir (snd e')" "fst e' = fst e"
      by (auto simp: filenames_of_def)
    with assms e have "e' = e"
      by (metis eq_key_imp_eq_value prod.collapse)
    with e' show "\<not> is_dir (snd e)" by simp
  next
    assume "\<not> is_dir (snd e)"
    with e show "fst e \<in> set (filenames_of es)" by (auto simp: filenames_of_def)
  qed
  then show "(\<not> (fst e \<in> set (filenames_of es) \<and> is_signpost_name (fst e)))
             = (is_dir (snd e) \<or> \<not> is_signpost_name (fst e))"
    by auto
qed

lemma remove_loop_tree:
  "wf_node t \<Longrightarrow>
   remove_loop (os_walk (\<lambda>d. True) [] t) k t = Inr (k + count_signposts t, strip_signposts t)"
proof (induction t arbitrary: k rule: count_signposts.induct)
  case (1 c)
  then show ?case by simp
next
  case (2 es)
  let ?kept = "filter (\<lambda>e. is_dir (snd e) \<or> \<not> is_signpost_name (fst e)) es"
  let ?c0 = "length (filter is_signpost_name (filenames_of es))"
  from "2.prems" have dist: "distinct (map fst es)"
    and wf: "\<And>e. e \<in> set es \<Longrightarrow> wf_node (snd e)"
    by (auto simp: list_all_iff)
  have here: "remove_files [] (filenames_of es) k (Dir es) = Inr (k + ?c0, Dir ?kept)"
    unfolding remove_files_here[OF dist filenames_of_distinct[OF dist] subset_refl, of k]
      filter_here[OF dist] by (rule refl)
  have walk: "concat (map (\<lambda>e. os_walk (\<lambda>d. True) [fst e] (snd e))
                        (filter (\<lambda>e. is_dir (snd e)) es))
              = concat (map (\<lambda>e. os_walk (\<lambda>d. True) [fst e] (snd e)) ?kept)"
  proof -
    have "concat (map (\<lambda>e. os_walk (\<lambda>d. True) [fst e] (snd e))
                        (filter (\<lambda>e. is_dir (snd e)) es))
          = concat (map (\<lambda>e. os_walk (\<lambda>d. True) [fst e] (snd e))
                        (filter (\<lambda>e. is_dir (snd e)) ?kept))"
      by (simp only: filter_dirs_kept)
    also have "\<dots> = concat (map (\<lambda>e. os_walk (\<lambda>d. True) [fst e] (snd e)) ?kept)"
      by (rule concat_walk_dirs)
    finally show ?thesis .
  qed
  have dist': "distinct (map fst ([] @ ?kept))"
    using dist by (simp add: distinct_map_filter)
  have sub: "\<And>e k. e \<in> set ?kept \<Longrightarrow> is_dir (snd e) \<Longrightarrow>
             remove_loop (os_walk (\<lambda>d. True) [] (snd e)) k (snd e)
             = Inr (k + count_signposts (snd e), strip_signposts (snd e))"
    using "2.IH" wf by simp
  have "remove_loop (concat (map (\<lambda>e. os_walk (\<lambda>d. True) [fst e] (snd e)) ?kept)) (k + ?c0)
          (Dir ([] @ ?kept))
        = Inr (k + ?c0 + sum_list (map (\<lambda>e. count_signposts (snd e)) ?kept),
               Dir ([] @ map (\<lambda>e. (fst e, strip_signposts (snd e))) ?kept))"
    using sub dist' by (rule remove_loop_entries)
  then show ?case
    using here walk by (simp add: sum_count_kept)
qed

lemma strip_signposts_filenames:
  "filter is_signpost_name
     (filenames_of (map (\<lambda>e. (fst e, strip_signposts (snd e)))
        (filter (\<lambda>e. is_dir (snd e) \<or> \<not> is_signpost_name (fst e)) es))) = []"
proof (induction es)
  case (Cons e es)
  then show ?case by (cases "snd e") (auto simp: filenames_of_def)
qed (simp add: filenames_of_def)

lemma count_strip_signposts: "count_signposts (strip_signposts t) = 0"
proof (induction t rule: count_signposts.induct)
  case (2 es)
  then show ?case
    by (simp add: strip_signposts_filenames comp_def)
qed simp

lemma wf_strip_signposts: "wf_node t \<Longrightarrow> wf_node (strip_signposts t)"
proof (induction t rule: count_signposts.induct)
  case (2 es)
  then show ?case
    by (auto simp: list_all_iff comp_def distinct_map_filter)
qed simp

lemma strip_signposts_is_dir: "is_dir (strip_signposts t) = is_dir t"
  by (cases t) auto

lemma strip_signposts_idem: "strip_signposts (strip_signposts t) = strip_signposts t"
proof (induction t rule: count_signposts.induct)
  case (2 es)
  let ?kept = "filter (\<lambda>e. is_dir (snd e) \<or> \<not> is_signpost_name (fst e)) es"
  have f: "filter (\<lambda>e. is_dir (snd e) \<or> \<not> is_signpost_name (fst e))
          (map (\<lambda>e. (fst e, strip_signposts (snd e))) ?kept)
        = map (\<lambda>e. (fst e, strip_signposts (snd e))) ?kept"
    by (induction es) (auto simp: strip_signposts_is_dir)
  have "map (\<lambda>e. (fst e, strip_signposts (snd e))) (map (\<lambda>e. (fst e, strip_signposts (snd e))) ?kept)
        = map (\<lambda>e. (fst e, strip_signposts (snd e))) ?kept"
    using 2 by (simp add: comp_def)
  then show ?case by (simp add: f)
qed simp

lemma map_of_strip_entries:
  "distinct (map fst es) \<Longrightarrow>
   map_of (map (\<lambda>e. (fst e, strip_signposts (snd e)))
             (filter (\<lambda>e. is_dir (snd e) \<or> \<not> is_signpost_name (fst e)) es)) x
   = (case map_of es x of
        None \<Rightarrow> None
      | Some n \<Rightarrow> if is_dir n \<or> \<not> is_signpost_name x then Some (strip_signposts n) else None)"
proof (induction es)
  case Nil
  then show ?case by simp
next
  case (Cons e es)
  show ?case
  proof (cases "fst e = x")
    case False
    then show ?thesis using Cons by auto
  next
    case True
    with Cons.prems have "x \<notin> fst ` set es" by auto
    then have "map_of es x = None" by (simp add: map_of_eq_None_iff)
    then show ?thesis using True Cons by auto
  qed
qed

lemma strip_signposts_eq_File: "strip_signposts n = File c \<longleftrightarrow> n = File c"
  by (cases n) auto

lemma lookup_strip_file:
  "wf_node t \<Longrightarrow> p \<noteq> [] \<Longrightarrow>
   lookup p (strip_signposts t) = Some (File c) \<longleftrightarrow>
     lookup p t = Some (File c) \<and> \<not> is_signpost_name (last p)"
proof (induction p arbitrary: t)
  case Nil
  then show ?case by simp
next
  case (Cons x q)
  show ?case
  proof (cases t)
    case (File c')
    then show ?thesis by simp
  next
    case (Dir es)
    with Cons.prems have dist: "distinct (map fst es)"
      and wf: "\<And>e. e \<in> set es \<Longrightarrow> wf_node (snd e)"
      by (auto simp: list_all_iff)
    show ?thesis
    proof (cases "map_of es x")
      case None
      then show ?thesis using Dir by (simp add: map_of_strip_entries[OF dist])
    next
      case (Some n)
      then have "(x, n) \<in> set es" by (rule map_of_SomeD)
      then have wfn: "wf_node n" using wf by force
      show ?thesis
      proof (cases "q = []")
        case True
        then show ?thesis
          using Dir Some
          by (cases n) (auto simp: map_of_strip_entries[OF dist] strip_signposts_eq_File)
      next
        case False
        show ?thesis
        proof (cases n)
          case (File c')
          then show ?thesis
            using Dir Some False by (cases q) (auto simp: map_of_strip_entries[OF dist])
        next
          case n: (Dir es')
          then show ?thesis
            using Dir Some False Cons.IH[OF wfn False]
            by (simp add: map_of_strip_entries[OF dist])
        qed
      qed
    qed
  qed
qed

subsection \<open>Removing the signposts\<close>

text \<open>
  C7. On a tree in which the names in each directory are distinct, \<^verbatim>\<open>remove\<close> returns
  without error the number of files anywhere in the tree whose name starts with
  \<^verbatim>\<open>_CARDINAL_\<close> and ends with \<^verbatim>\<open>.txt\<close>, excluded directories included since its walk does
  not prune, and leaves the tree without these files and otherwise as it was; a second
  \<^verbatim>\<open>remove\<close>, on the tree the first one left, returns 0 and changes nothing. The files
  of the tree that is left are, path by path and with their content, the files of the
  tree before whose name is not that of a signpost.
\<close>

theorem remove_deletes_every_signpost:
  assumes "wf_node fs"
  shows "remove g fs = Inr (count_signposts fs, strip_signposts fs) \<and>
         remove g (strip_signposts fs) = Inr (0, strip_signposts fs) \<and>
         (\<forall>p c. p \<noteq> [] \<longrightarrow>
            (lookup p (strip_signposts fs) = Some (File c) \<longleftrightarrow>
             lookup p fs = Some (File c) \<and> \<not> is_signpost_name (last p)))"
proof (intro conjI allI impI)
  show "remove g fs = Inr (count_signposts fs, strip_signposts fs)"
    using remove_loop_tree[OF assms, of 0] by (simp add: remove_def)
  show "remove g (strip_signposts fs) = Inr (0, strip_signposts fs)"
    using remove_loop_tree[OF wf_strip_signposts[OF assms], of 0]
    by (simp add: remove_def count_strip_signposts strip_signposts_idem)
  show "lookup p (strip_signposts fs) = Some (File c) \<longleftrightarrow>
          lookup p fs = Some (File c) \<and> \<not> is_signpost_name (last p)"
    if "p \<noteq> []" for p c
    using assms that by (rule lookup_strip_file)
qed

lemma scenario_result_wf: "wf_node scenario_result"
  by (simp add: scenario_result_def)

lemma scenario_result_count: "count_signposts scenario_result = 5"
  by (simp add: scenario_result_def filenames_of_def is_signpost_name_def startswith_def
        endswith_def)

lemma scenario_result_strip: "strip_signposts scenario_result = scenario_tree"
  by (simp add: scenario_result_def scenario_tree_def is_signpost_name_def startswith_def
        endswith_def)

text \<open>
  After \<^verbatim>\<open>create_signposts\<close> on the project of the test suite, \<^verbatim>\<open>remove\<close> returns 5 and gives
  back the project as it was before; \<^verbatim>\<open>remove\<close> once more returns 0.
\<close>

theorem remove_deletes_every_signpost_witness:
  "wf_node scenario_result \<and>
   (remove scenario_generator scenario_result
      = Inr (count_signposts scenario_result, strip_signposts scenario_result) \<and>
    remove scenario_generator (strip_signposts scenario_result)
      = Inr (0, strip_signposts scenario_result)) \<and>
   count_signposts scenario_result = 5 \<and>
   strip_signposts scenario_result = scenario_tree"
  using scenario_result_wf remove_deletes_every_signpost[OF scenario_result_wf, of scenario_generator]
    scenario_result_count scenario_result_strip
  by blast

end
